theory Spec2Isabelle
  imports Main "HOL-Library.Word" "HOL-Library.Signed_Division"
begin

unbundle bit_operations_syntax

chapter \<open>The model\<close>

section \<open>Machine types of the target (ESP32, 32-bit)\<close>

text \<open>
  \<open>uint8_t\<close>, \<open>uint16_t\<close> and \<open>uint32_t\<close> (also \<open>size_t\<close> and \<open>unsigned long\<close>) are
  words whose arithmetic wraps. \<open>int\<close> and \<open>int32_t\<close> are 32-bit words too, read as two's
  complement with \<open>sint\<close>; their overflow, formally undefined in C++, is modelled as the
  wrap-around the target's arithmetic instructions perform.
\<close>

type_synonym byte = "8 word"
type_synonym u16 = "16 word"
type_synonym u32 = "32 word"
type_synonym i32 = "32 word"

text \<open>C's \<open>%\<close> on \<open>int\<close>: the remainder of the division that truncates towards zero.\<close>

definition c_rem :: "i32 \<Rightarrow> i32 \<Rightarrow> i32" where
  "c_rem a b = word_of_int (sint a smod sint b)"

text \<open>C's \<open>/\<close> on \<open>int\<close>: the quotient truncated towards zero.\<close>

definition c_div :: "i32 \<Rightarrow> i32 \<Rightarrow> i32" where
  "c_div a b = word_of_int (sint a sdiv sint b)"

text \<open>\<open>abs\<close> on \<open>int32_t\<close>; the most negative value is its own negation.\<close>

definition abs_i32 :: "i32 \<Rightarrow> i32" where
  "abs_i32 a = (if sint a < 0 then - a else a)"

section \<open>Block storage: the \<open>File\<close> handle of the SD library\<close>

text \<open>
  A file is its bytes, the cursor of the handle and whether the handle is open. The
  operations are those of the Arduino \<open>File\<close> class the sketches call: \<open>size\<close>,
  \<open>write(buf, len)\<close> (at the cursor, overwriting and extending), \<open>seek\<close> (refused beyond
  the end of the file) and \<open>close\<close>.
\<close>

record File =
  content :: "byte list"
  position :: nat
  is_open :: bool

definition file_size :: "File \<Rightarrow> nat" where
  "file_size f = length (content f)"

definition file_write :: "File \<Rightarrow> byte list \<Rightarrow> File" where
  "file_write f buf =
     f\<lparr>content := take (position f) (content f) @ buf
                     @ drop (position f + length buf) (content f),
       position := position f + length buf\<rparr>"

definition file_seek :: "File \<Rightarrow> nat \<Rightarrow> File" where
  "file_seek f p = (if p \<le> file_size f then f\<lparr>position := p\<rparr> else f)"


text \<open>\<open>read(buf, len)\<close>: up to \<open>len\<close> bytes from the cursor, which advances past them.\<close>

definition file_read :: "File \<Rightarrow> nat \<Rightarrow> byte list \<times> File" where
  "file_read f len =
     (let bs = take len (drop (position f) (content f))
      in (bs, f\<lparr>position := position f + length bs\<rparr>))"

definition file_close :: "File \<Rightarrow> File" where
  "file_close f = f\<lparr>is_open := False\<rparr>"

text \<open>
  The handle \<^verbatim>\<open>SD.open("/recorded_audio.wav", FILE_WRITE)\<close> gives setup(): on the ESP32
  core \<open>FILE_WRITE\<close> is mode \<open>"w"\<close>, an empty file with the cursor at 0.
\<close>

definition created_file :: File where
  "created_file = \<lparr>content = [], position = 0, is_open = True\<rparr>"

text \<open>
  The card: the files stored on it, and whether \<open>SD.open\<close> succeeds on a stored file (it can
  fail on a file that exists). \<open>SD.open(name)\<close> for reading gives a handle at cursor 0, or
  the null handle \<open>None\<close>.
\<close>

record SDCard =
  stored :: "string \<Rightarrow> byte list option"
  opens :: "string \<Rightarrow> bool"


definition SD_open :: "SDCard \<Rightarrow> string \<Rightarrow> File option" where
  "SD_open sd name =
     (case stored sd name of
        None \<Rightarrow> None
      | Some c \<Rightarrow> if opens sd name then Some \<lparr>content = c, position = 0, is_open = True\<rparr>
                  else None)"

section \<open>WAV container writer (Speech\_2\_text.ino)\<close>

text \<open>The four bytes \<^verbatim>\<open>x & 0xFF, (x >> 8) & 0xFF, (x >> 16) & 0xFF, (x >> 24) & 0xFF\<close>.\<close>

definition le32_bytes :: "u32 \<Rightarrow> byte list" where
  "le32_bytes x = [ucast (x AND 0xFF), ucast (drop_bit 8 x AND 0xFF),
                   ucast (drop_bit 16 x AND 0xFF), ucast (drop_bit 24 x AND 0xFF)]"

text \<open>
  writeWavHeader: twelve writes, 44 bytes. \<open>byteRate\<close> is computed in \<open>uint32_t\<close>; the block
  alignment \<open>channels * bitsPerSample / 8\<close> in \<open>int\<close>, after integer promotion. Where that
  product exceeds the largest \<open>int\<close> the source is undefined: the byte the model gives there
  (offset 32 of the header) is the wrap-around value, a compiler may produce another, and
  nothing below depends on it.
\<close>

definition writeWavHeader :: "File \<Rightarrow> u32 \<Rightarrow> u16 \<Rightarrow> u16 \<Rightarrow> File" where
  "writeWavHeader file sampleRate bitsPerSample channels =
     (let byteRate = (sampleRate * ucast channels * ucast bitsPerSample) div 8;
          f1 = file_write file [0x52, 0x49, 0x46, 0x46];
          f2 = file_write f1 [0, 0, 0, 0];
          f3 = file_write f2 [0x57, 0x41, 0x56, 0x45];
          f4 = file_write f3 [0x66, 0x6D, 0x74, 0x20];
          fmt_chunk = [16, 0, 0, 0, 1, 0, ucast channels, 0];
          f5 = file_write f4 fmt_chunk;
          f6 = file_write f5 (le32_bytes sampleRate);
          f7 = file_write f6 (le32_bytes byteRate);
          block_align_chunk =
            [ucast (c_div (ucast channels * ucast bitsPerSample) 8), 0, ucast bitsPerSample, 0];
          f8 = file_write f7 block_align_chunk;
          f9 = file_write f8 [0x64, 0x61, 0x74, 0x61]
      in file_write f9 [0, 0, 0, 0])"

text \<open>finalizeWavHeader: \<open>file.size()\<close> is a \<open>size_t\<close>, stored in a \<open>uint32_t\<close>.\<close>

definition finalizeWavHeader :: "File \<Rightarrow> File" where
  "finalizeWavHeader file =
     (let fileSize = (of_nat (file_size file) :: u32);
          f1 = file_seek file 4;
          f2 = file_write f1 (le32_bytes (fileSize - 8));
          f3 = file_seek f2 40;
          data_chunk_size = fileSize - 44
      in file_write f3 (le32_bytes data_chunk_size))"

text \<open>The payload writes between the header and its finalization, one per chunk.\<close>

fun write_all :: "File \<Rightarrow> byte list list \<Rightarrow> File" where
  "write_all f [] = f"
| "write_all f (buf # bufs) = write_all (file_write f buf) bufs"

text \<open>
  Reading a 4-byte field back as a little-endian unsigned integer (the reader of the
  round trip, not code of the sketch).
\<close>

definition le32_value :: "byte list \<Rightarrow> nat" where
  "le32_value bs = unat (bs ! 0) + 256 * unat (bs ! 1) + 65536 * unat (bs ! 2)
                   + 16777216 * unat (bs ! 3)"


text \<open>The cursor is at the end of the file: the next write appends.\<close>

definition at_end :: "File \<Rightarrow> bool" where
  "at_end f = (position f = length (content f))"

section \<open>Audio capture: recordAudio (Speech\_2\_text.ino)\<close>

text \<open>
  The microphone channel is the list of byte blocks the successive \<open>i2s_read\<close> calls
  deliver (\<open>bytesRead\<close> is the length of a block; a call asks for \<open>sizeof(buffer) = 1024\<close>
  bytes). The call waits with \<open>portMAX_DELAY\<close>: when the channel delivers nothing more it
  never returns, which is the result \<open>None\<close>. Each block is written to the file and
  \<open>bytesRead / (SAMPLE_BITS / 8)\<close> is added to the \<open>uint32_t\<close> counter. The value printed
  for the serial plotter does not influence the loop and is left out.
\<close>

definition SAMPLE_RATE :: u32 where "SAMPLE_RATE = 16000"
definition SAMPLE_BITS :: u32 where "SAMPLE_BITS = 16"

fun recordAudio_loop :: "u32 \<Rightarrow> byte list list \<Rightarrow> File \<Rightarrow> u32 \<Rightarrow> (File \<times> u32) option" where
  "recordAudio_loop totalSamples [] audioFile samplesRecorded =
     (if samplesRecorded < totalSamples then None else Some (audioFile, samplesRecorded))"
| "recordAudio_loop totalSamples (buf # reads) audioFile samplesRecorded =
     (if samplesRecorded < totalSamples
      then recordAudio_loop totalSamples reads (file_write audioFile buf)
             (samplesRecorded + of_nat (length buf) div (SAMPLE_BITS div 8))
      else Some (audioFile, samplesRecorded))"

definition recordAudio :: "u32 \<Rightarrow> byte list list \<Rightarrow> File \<Rightarrow> (File \<times> u32) option" where
  "recordAudio durationSec reads audioFile =
     recordAudio_loop (SAMPLE_RATE * durationSec) reads audioFile 0"

text \<open>
  The counter of the loop alone, given the lengths of the blocks: what recordAudio\_loop
  counts, without the file (lemma \<open>recordAudio_loop_count\<close>).
\<close>

fun samples_counted :: "u32 \<Rightarrow> nat list \<Rightarrow> u32 \<Rightarrow> u32 option" where
  "samples_counted t [] s = (if s < t then None else Some s)"
| "samples_counted t (k # ks) s =
     (if s < t then samples_counted t ks (s + of_nat k div 2) else Some s)"

section \<open>Audio playback: playSong (the player sketch)\<close>

text \<open>
  The transmit channel of \<open>i2s_write\<close>. The driver is not code of the sketch: how many
  bytes its \<open>k\<close>-th call consumes at most is the parameter \<open>accepts\<close>; the channel records
  the bytes each call was offered (the first \<open>size\<close> bytes of the buffer) and the bytes it
  consumed. \<open>i2s_write\<close> returns the channel and \<open>bytesWritten\<close>.
\<close>

record I2S_tx =
  accepts :: "nat \<Rightarrow> nat"
  requested :: "byte list list"
  transmitted :: "byte list list"






text \<open>The globals playSong touches: the handle \<open>audioFile\<close> and the channel.\<close>

record Player =
  audioFile :: "File option"
  i2s :: I2S_tx


text \<open>
  For stating the claims: a byte sequence cut into successive pieces of \<open>n\<close> (what
  successive reads of \<open>n\<close> bytes return), and the longest prefix of even length.
\<close>

function chunks :: "nat \<Rightarrow> 'a list \<Rightarrow> 'a list list" where
  "chunks n xs = (if n = 0 \<or> xs = [] then [] else take n xs # chunks n (drop n xs))"
  by pat_completeness auto
termination
  by (relation "measure (\<lambda>(n, xs). length xs)") simp_all

declare chunks.simps [simp del]






section \<open>Bitmap decoder: row stride\<close>

text \<open>
  \<^verbatim>\<open>uint32_t rowSize = (bmpWidth * 3 + 3) & ~3;\<close> (displayBMP), with \<open>bmpWidth\<close> an
  \<open>int32_t\<close>.
\<close>

definition rowSize :: "i32 \<Rightarrow> u32" where
  "rowSize bmpWidth = (bmpWidth * 3 + 3) AND NOT 3"

section \<open>Bitmap decoder: displayBMP (the player sketch)\<close>

text \<open>
  \<open>f.read()\<close> gives one byte as an \<open>int\<close>, or \<open>-1\<close> at the end of the file, where the cursor
  stays.
\<close>

definition file_read1 :: "File \<Rightarrow> i32 \<times> File" where
  "file_read1 f =
     (if position f < length (content f)
      then (ucast (content f ! position f), f\<lparr>position := position f + 1\<rparr>)
      else (- 1, f))"

text \<open>
  \<^verbatim>\<open>f.read() | (f.read() << 8)\<close>, converted to \<open>uint16_t\<close>, and the four-byte
  \<^verbatim>\<open>f.read() | (f.read() << 8) | (f.read() << 16) | (f.read() << 24)\<close>. The reads are
  taken in the order written, left to right.
\<close>

definition read16 :: "File \<Rightarrow> u16 \<times> File" where
  "read16 f =
     (case file_read1 f of (a, f1) \<Rightarrow>
      case file_read1 f1 of (b, f2) \<Rightarrow> (ucast (a OR push_bit 8 b), f2))"

definition read32 :: "File \<Rightarrow> u32 \<times> File" where
  "read32 f =
     (case file_read1 f of (a, f1) \<Rightarrow>
      case file_read1 f1 of (b, f2) \<Rightarrow>
      case file_read1 f2 of (c, f3) \<Rightarrow>
      case file_read1 f3 of (d, f4) \<Rightarrow>
        (a OR push_bit 8 b OR push_bit 16 c OR push_bit 24 d, f4))"

text \<open>
  The render sink: the calls the decoder makes on the display, in order.
  \<open>DrawPixel x y r g b\<close> is \<^verbatim>\<open>display.drawPixel(x, y, display.color565(r, g, b))\<close>; the
  packing done by \<open>color565\<close> is the library's and is not expanded.
\<close>

datatype draw_op =
    SetAddrWindow i32 i32 i32 i32
  | DrawPixel i32 i32 byte byte byte

text \<open>
  The locals of displayBMP that the loops change: the handle, the 60-byte cache
  \<open>sdbuffer\<close>, its index \<open>buffidx\<close> (a \<open>uint8_t\<close> that stays between 0 and 60) and the sink.
\<close>

record Decoder =
  bmpFile :: File
  sdbuffer :: "byte list"
  buffidx :: nat
  screen :: "draw_op list"

text \<open>
  The body of the column loop: refill the cache when it is used up (a short read leaves
  the rest of the cache as it was), then take three bytes, blue, green, red.
\<close>

definition decode_pixel :: "i32 \<Rightarrow> i32 \<Rightarrow> i32 \<Rightarrow> i32 \<Rightarrow> Decoder \<Rightarrow> Decoder" where
  "decode_pixel x y row col st =
     (let st1 = (if 60 \<le> buffidx st
                 then (case file_read (bmpFile st) 60 of
                         (bs, f') \<Rightarrow> st\<lparr>bmpFile := f',
                                        sdbuffer := bs @ drop (length bs) (sdbuffer st),
                                        buffidx := 0\<rparr>)
                 else st);
          b = sdbuffer st1 ! buffidx st1;
          g = sdbuffer st1 ! (buffidx st1 + 1);
          r = sdbuffer st1 ! (buffidx st1 + 2)
      in st1\<lparr>buffidx := buffidx st1 + 3,
              screen := screen st1 @ [DrawPixel (x + col) (y + row) r g b]\<rparr>)"

text \<open>
  The body of the row loop: the position of the source row, in \<open>uint32_t\<close>; a seek when the
  cursor is elsewhere (the cache and \<open>buffidx\<close> are left as they are); then the columns
  \<open>0 \<le> col < bmpWidth\<close>, a signed comparison.
\<close>

definition decode_row ::
  "i32 \<Rightarrow> i32 \<Rightarrow> u32 \<Rightarrow> bool \<Rightarrow> i32 \<Rightarrow> i32 \<Rightarrow> u32 \<Rightarrow> i32 \<Rightarrow> Decoder \<Rightarrow> Decoder" where
  "decode_row x y bmpImageOffset flip bmpHeight bmpWidth rowSz row st =
     (let pos = bmpImageOffset + (if flip then bmpHeight - 1 - row else row) * rowSz;
          st1 = (if of_nat (position (bmpFile st)) \<noteq> pos
                 then st\<lparr>bmpFile := file_seek (bmpFile st) (unat pos)\<rparr>
                 else st)
      in fold (decode_pixel x y row) (map of_nat [0..<nat (sint bmpWidth)]) st1)"

text \<open>
  displayBMP. \<open>stack\<close> is what the uninitialised array \<open>sdbuffer\<close> holds on entry. The
  result is the handle as the statements of the function leave it (\<open>None\<close> when the file
  did not open; \<open>is_open\<close> says whether \<open>close()\<close> has been called on it) and the sink. What
  the destructor of the library's \<open>File\<close> does with a handle that was not closed is not
  code of the sketch and is not modelled.
\<close>

definition displayBMP ::
  "SDCard \<Rightarrow> string \<Rightarrow> byte list \<Rightarrow> draw_op list \<Rightarrow> i32 \<Rightarrow> i32 \<Rightarrow> File option \<times> draw_op list" where
  "displayBMP sd filename stack display x y =
     (case SD_open sd filename of
        None \<Rightarrow> (None, display)
      | Some f0 \<Rightarrow>
        (case read16 f0 of (magic, f1) \<Rightarrow>
         if magic \<noteq> 0x4D42 then (Some f1, display)
         else
          (case read32 f1 of (_, f2) \<Rightarrow>
           case read32 f2 of (_, f3) \<Rightarrow>
           case read32 f3 of (bmpImageOffset, f4) \<Rightarrow>
           case read32 f4 of (_, f5) \<Rightarrow>
           case read32 f5 of (bmpWidth, f6) \<Rightarrow>
           case read32 f6 of (bmpHeight0, f7) \<Rightarrow>
           case read16 f7 of (_, f8) \<Rightarrow>
           case read16 f8 of (bpp, f9) \<Rightarrow>
           if bpp \<noteq> 24 then (Some f9, display)
           else
            (case read32 f9 of (compression, f10) \<Rightarrow>
             if compression \<noteq> 0 then (Some f10, display)
             else
              (let rowSz = rowSize bmpWidth;
                   flip = (0 < sint bmpHeight0);
                   bmpHeight = abs_i32 bmpHeight0;
                   display1 = display @ [SetAddrWindow x y (x + bmpWidth - 1) (y + bmpHeight - 1)];
                   st = fold (decode_row x y bmpImageOffset flip bmpHeight bmpWidth rowSz)
                          (map of_nat [0..<nat (sint bmpHeight)])
                          \<lparr>bmpFile = f10, sdbuffer = stack, buffidx = 60, screen = display1\<rparr>
               in (Some (file_close (bmpFile st)), screen st))))))"


definition bpp_is_24 :: "byte list \<Rightarrow> bool" where
  "bpp_is_24 c = (30 \<le> length c \<and> c ! 28 = 24 \<and> c ! 29 = 0)"

definition uncompressed :: "byte list \<Rightarrow> bool" where
  "uncompressed c = (34 \<le> length c \<and> c ! 30 = 0 \<and> c ! 31 = 0 \<and> c ! 32 = 0 \<and> c ! 33 = 0)"

text \<open>The handle after the reads that precede the bits-per-pixel field.\<close>

definition bpp_handle :: "File \<Rightarrow> File" where
  "bpp_handle f0 =
     snd (read16 (snd (read32 (snd (read32 (snd (read32 (snd (read32 (snd (read32 (snd (read32
       (snd (read16 f0)))))))))))))))"

text \<open>
  What a run of columns draws when every pixel is taken from the cache \<open>buf\<close>, starting
  at index \<open>k\<close>.
\<close>

fun cached_ops :: "i32 \<Rightarrow> i32 \<Rightarrow> i32 \<Rightarrow> byte list \<Rightarrow> nat \<Rightarrow> i32 list \<Rightarrow> draw_op list" where
  "cached_ops x y row buf k [] = []"
| "cached_ops x y row buf k (col # cols) =
     DrawPixel (x + col) (y + row) (buf ! (k + 2)) (buf ! (k + 1)) (buf ! k)
       # cached_ops x y row buf (k + 3) cols"

text \<open>
  Concrete files: a 5 by 2 top-down bitmap (height field \<open>-2\<close>, stride 16) and a 4 by 2
  bottom-up bitmap (height field \<open>2\<close>, stride 12), each with 54 header bytes and distinct
  bytes per row; a file that starts with a ZIP signature; a 16-bit bitmap; a 24-bit bitmap whose
  compression field is 1; and a card
  that holds one such file as the first image.
\<close>

definition top_down_5x2 :: "byte list" where
  "top_down_5x2 =
     [0x42, 0x4D, 0, 0, 0, 0, 0, 0, 0, 0, 54, 0, 0, 0,
      40, 0, 0, 0, 5, 0, 0, 0, 0xFE, 0xFF, 0xFF, 0xFF, 1, 0, 24, 0, 0, 0, 0, 0,
      0, 0, 0, 0, 0, 0, 0, 0, 0, 0, 0, 0, 0, 0, 0, 0, 0, 0, 0, 0,
      1, 2, 3, 4, 5, 6, 7, 8, 9, 10, 11, 12, 13, 14, 15, 0,
      101, 102, 103, 104, 105, 106, 107, 108, 109, 110, 111, 112, 113, 114, 115, 0]"

definition bottom_up_4x2 :: "byte list" where
  "bottom_up_4x2 =
     [0x42, 0x4D, 0, 0, 0, 0, 0, 0, 0, 0, 54, 0, 0, 0,
      40, 0, 0, 0, 4, 0, 0, 0, 2, 0, 0, 0, 1, 0, 24, 0, 0, 0, 0, 0,
      0, 0, 0, 0, 0, 0, 0, 0, 0, 0, 0, 0, 0, 0, 0, 0, 0, 0, 0, 0,
      1, 2, 3, 4, 5, 6, 7, 8, 9, 10, 11, 12,
      101, 102, 103, 104, 105, 106, 107, 108, 109, 110, 111, 112]"

definition image_card :: "byte list \<Rightarrow> SDCard" where
  "image_card c = \<lparr>stored = [''/images/image1.bmp'' \<mapsto> c], opens = (\<lambda>_. True)\<rparr>"


definition bmp_16bpp :: "byte list" where
  "bmp_16bpp = [0x42, 0x4D, 0, 0, 0, 0, 0, 0, 0, 0, 54, 0, 0, 0,
                40, 0, 0, 0, 1, 0, 0, 0, 1, 0, 0, 0, 1, 0, 16, 0, 0, 0, 0, 0,
                0, 0, 0, 0, 0, 0, 0, 0, 0, 0, 0, 0, 0, 0, 0, 0, 0, 0, 0, 0,
                7, 7, 0, 0]"

definition bmp_compressed :: "byte list" where
  "bmp_compressed = [0x42, 0x4D, 0, 0, 0, 0, 0, 0, 0, 0, 54, 0, 0, 0,
                     40, 0, 0, 0, 1, 0, 0, 0, 1, 0, 0, 0, 1, 0, 24, 0, 1, 0, 0, 0,
                     0, 0, 0, 0, 0, 0, 0, 0, 0, 0, 0, 0, 0, 0, 0, 0, 0, 0, 0, 0,
                     7, 7, 7, 0]"

section \<open>Cooperative scheduler: loop() of the player sketch\<close>

text \<open>
  The globals the loop reads and writes, the values it reads from the environment in one
  iteration (\<open>millis()\<close> at the top, the button pin, \<open>millis()\<close> in the button branch) and
  the calls it makes, in order, with their arguments. \<open>unsigned long\<close> is 32 bits on the
  target; \<open>currentImage\<close> is a \<open>uint8_t\<close>, \<open>currentSong\<close> an \<open>int\<close>.
\<close>

record Sched =
  previousMillis :: u32
  previousImageMillis :: u32
  currentImage :: byte
  currentSong :: i32
  lastButtonPressTime :: u32

datatype call = AdjustTime | DisplayTime | DisplayBMPOnTFT2 byte | PlaySong i32

record LoopInput =
  millis_top :: u32
  button_low :: bool
  millis_button :: u32

definition totalSongs :: i32 where "totalSongs = 5"
definition totalImages :: byte where "totalImages = 4"
definition interval :: u32 where "interval = 1000"
definition imageInterval :: u32 where "imageInterval = 5000"
definition DEBOUNCE_DELAY :: u32 where "DEBOUNCE_DELAY = 50"

definition initial :: Sched where
  "initial = \<lparr>previousMillis = 0, previousImageMillis = 0, currentImage = 1,
     currentSong = 0, lastButtonPressTime = 0\<rparr>"

definition clock_gate :: "u32 \<Rightarrow> Sched \<Rightarrow> Sched \<times> call list" where
  "clock_gate currentMillis s =
     (if interval \<le> currentMillis - previousMillis s
      then (s\<lparr>previousMillis := currentMillis\<rparr>, [AdjustTime, DisplayTime])
      else (s, []))"

definition image_gate :: "u32 \<Rightarrow> Sched \<Rightarrow> Sched \<times> call list" where
  "image_gate currentMillis s =
     (if imageInterval \<le> currentMillis - previousImageMillis s
      then (let ci = (currentImage s mod totalImages) + 1
            in (s\<lparr>previousImageMillis := currentMillis, currentImage := ci\<rparr>,
                [DisplayBMPOnTFT2 ci]))
      else (s, []))"

definition button_step :: "LoopInput \<Rightarrow> Sched \<Rightarrow> Sched" where
  "button_step inp s =
     (if button_low inp
      then (let currentTime = millis_button inp
            in if DEBOUNCE_DELAY < currentTime - lastButtonPressTime s
               then s\<lparr>lastButtonPressTime := currentTime,
                      currentSong := c_rem (currentSong s - 1 + totalSongs) totalSongs\<rparr>
               else s)
      else s\<lparr>currentSong := c_rem (currentSong s + 1) totalSongs\<rparr>)"

definition loop :: "LoopInput \<Rightarrow> Sched \<Rightarrow> Sched \<times> call list" where
  "loop inp s =
     (case clock_gate (millis_top inp) s of (s1, c1) \<Rightarrow>
      case image_gate (millis_top inp) s1 of (s2, c2) \<Rightarrow>
        (button_step inp s2, c1 @ c2 @ [PlaySong (currentSong s2)]))"

fun run :: "LoopInput list \<Rightarrow> Sched \<Rightarrow> Sched \<times> call list" where
  "run [] s = (s, [])"
| "run (inp # inps) s =
     (case loop inp s of (s1, c1) \<Rightarrow> case run inps s1 of (s2, c2) \<Rightarrow> (s2, c1 @ c2))"

fun call_in_range :: "call \<Rightarrow> bool" where
  "call_in_range (PlaySong i) = (0 \<le> sint i \<and> sint i < sint totalSongs)"
| "call_in_range (DisplayBMPOnTFT2 n) = (1 \<le> unat n \<and> unat n \<le> unat totalImages)"
| "call_in_range _ = True"

definition cursors_in_range :: "Sched \<Rightarrow> bool" where
  "cursors_in_range s = (0 \<le> sint (currentSong s) \<and> sint (currentSong s) < sint totalSongs
     \<and> 1 \<le> unat (currentImage s) \<and> unat (currentImage s) \<le> unat totalImages)"

chapter \<open>Facts about the model\<close>

section \<open>Facts about words\<close>

lemma and_not_3_push: "(x::32 word) AND NOT 3 = push_bit 2 (drop_bit 2 x)"
proof -
  have m: "(3::32 word) = mask 2" by (simp add: mask_eq_exp_minus_1)
  have s: "\<And>n::nat. 2 \<le> n \<Longrightarrow> Suc (Suc (n - 2)) = n" by arith
  show ?thesis unfolding m
    by (rule bit_eqI) (auto simp add: bit_simps s)
qed

lemma unat_and_not_3: "unat ((x::32 word) AND NOT 3) = (unat x div 4) * 4"
proof -
  have "unat x div 4 * 4 \<le> unat x" by simp
  moreover have "unat x < 2 ^ 32" using unsigned_less [of x] by simp
  ultimately have lt: "unat x div 4 * 4 < 2 ^ 32" by linarith
  have "unat (push_bit 2 (drop_bit 2 x)) = take_bit 32 (push_bit 2 (drop_bit 2 (unat x)))"
    by (simp only: unsigned_push_bit_eq unat_drop_bit_eq) simp
  also have "\<dots> = take_bit 32 (unat x div 4 * 4)"
    by (simp add: push_bit_eq_mult drop_bit_eq_div)
  also have "\<dots> = unat x div 4 * 4"
    using lt by (simp only: take_bit_nat_eq_self)
  finally show ?thesis by (simp only: and_not_3_push)
qed

lemma sint_eq_uint_32: "uint (w::32 word) < 2 ^ 31 \<Longrightarrow> sint w = uint w"
proof -
  assume a: "uint w < 2 ^ 31"
  have "- (2 ^ 31) \<le> (0::int)" by simp
  also have "0 \<le> uint w" by simp
  finally have "- (2 ^ 31) \<le> uint w" .
  then have "signed_take_bit 31 (uint w) = uint w"
    using a by (simp only: signed_take_bit_int_eq_self)
  then show ?thesis by (simp add: sint_uint)
qed

lemma rowSize_unat:
  assumes "3 * unat w + 3 < 2 ^ 32"
  shows "unat (rowSize w) = ((3 * unat w + 3) div 4) * 4"
proof -
  have "unat (w * 3 + 3) = 3 * unat w + 3"
    using assms by (simp add: unat_word_ariths)
  then show ?thesis by (simp only: rowSize_def unat_and_not_3)
qed

section \<open>Facts about the WAV writer\<close>

lemma byte_of_u32: "unat (ucast (drop_bit k (x::u32) AND 0xFF) :: byte) = (unat x div 2 ^ k) mod 256"
proof -
  have m: "(0xFF :: u32) = mask 8" by (simp add: mask_eq_exp_minus_1)
  have "unat (drop_bit k x AND mask 8) = take_bit 8 (drop_bit k (unat x))"
    by (simp only: take_bit_eq_mask [symmetric] unsigned_take_bit_eq unat_drop_bit_eq)
  then have a: "unat (drop_bit k x AND mask 8) = (unat x div 2 ^ k) mod 256"
    by (simp add: take_bit_eq_mod drop_bit_eq_div)
  have "unat (ucast (drop_bit k x AND mask 8) :: byte) = take_bit 8 (unat (drop_bit k x AND mask 8))"
    by (simp only: unsigned_ucast_eq) simp
  also have "\<dots> = (unat x div 2 ^ k) mod 256"
    by (simp only: a) (simp add: take_bit_eq_mod)
  finally show ?thesis unfolding m .
qed

lemma base256_digits:
  fixes n :: nat
  assumes "n < 2 ^ 32"
  shows "n mod 256 + 256 * (n div 256 mod 256) + 65536 * (n div 65536 mod 256)
         + 16777216 * (n div 16777216 mod 256) = n"
proof -
  define q1 q2 q3 where "q1 = n div 256" and "q2 = n div 65536" and "q3 = n div 16777216"
  have d1: "n = 256 * q1 + n mod 256" unfolding q1_def by simp
  have "q2 = q1 div 256" unfolding q1_def q2_def by (simp add: div_mult2_eq [symmetric])
  then have d2: "q1 = 256 * q2 + q1 mod 256" by simp
  have "q3 = q2 div 256" unfolding q2_def q3_def by (simp add: div_mult2_eq [symmetric])
  then have d3: "q2 = 256 * q3 + q2 mod 256" by simp
  have "q3 < 256" unfolding q3_def using assms by simp
  then have last: "q3 mod 256 = q3" by simp
  have "n mod 256 + 256 * (q1 mod 256) + 65536 * (q2 mod 256) + 16777216 * (q3 mod 256) = n"
    unfolding last using d1 d2 d3 by linarith
  then show ?thesis unfolding q1_def q2_def q3_def .
qed

lemma le32_value_bytes: "le32_value (le32_bytes x) = unat x"
proof -
  have b0: "unat (ucast (x AND 0xFF) :: byte) = unat x mod 256"
    using byte_of_u32 [of 0 x] by simp
  have b1: "unat (ucast (drop_bit 8 x AND 0xFF) :: byte) = unat x div 256 mod 256"
    using byte_of_u32 [of 8 x] by simp
  have b2: "unat (ucast (drop_bit 16 x AND 0xFF) :: byte) = unat x div 65536 mod 256"
    using byte_of_u32 [of 16 x] by simp
  have b3: "unat (ucast (drop_bit 24 x AND 0xFF) :: byte) = unat x div 16777216 mod 256"
    using byte_of_u32 [of 24 x] by simp
  have lt: "unat x < 2 ^ 32" using unsigned_less [of x] by simp
  have "le32_value (le32_bytes x) = unat x mod 256 + 256 * (unat x div 256 mod 256)
         + 65536 * (unat x div 65536 mod 256) + 16777216 * (unat x div 16777216 mod 256)"
    unfolding le32_value_def le32_bytes_def
    by (simp only: nth_Cons_0 nth_Cons_Suc One_nat_def numeral_2_eq_2 numeral_3_eq_3 b0 b1 b2 b3)
  then show ?thesis by (simp only: base256_digits [OF lt])
qed


lemma file_write_at_end:
  "at_end f \<Longrightarrow> content (file_write f buf) = content f @ buf \<and> at_end (file_write f buf)"
  by (simp add: file_write_def at_end_def)

lemma write_all_at_end:
  "at_end f \<Longrightarrow> content (write_all f bufs) = content f @ concat bufs \<and> at_end (write_all f bufs)"
proof (induction bufs arbitrary: f)
  case Nil
  then show ?case by simp
next
  case (Cons buf bufs)
  from file_write_at_end [OF Cons.prems, of buf] Cons.IH [of "file_write f buf"]
  show ?case by simp
qed

lemma length_le32_bytes: "length (le32_bytes x) = 4"
  by (simp add: le32_bytes_def)

lemma file_write_at_end_content: "at_end f \<Longrightarrow> content (file_write f buf) = content f @ buf"
  by (simp add: file_write_at_end)

lemma file_write_at_end_again: "at_end f \<Longrightarrow> at_end (file_write f buf)"
  by (simp add: file_write_at_end)

lemma writeWavHeader_at_end:
  assumes "at_end f"
  shows "length (content (writeWavHeader f r b c)) = length (content f) + 44
   \<and> at_end (writeWavHeader f r b c)"
  unfolding writeWavHeader_def Let_def using assms
  by (simp add: file_write_at_end_content file_write_at_end_again length_le32_bytes)

lemma writeWavHeader_created:
  "length (content (writeWavHeader created_file r b c)) = 44
   \<and> at_end (writeWavHeader created_file r b c)"
proof -
  have "at_end created_file" by (simp add: at_end_def created_file_def)
  from writeWavHeader_at_end [OF this, of r b c] show ?thesis
    by (simp add: created_file_def)
qed

lemma seek_write_content:
  "p \<le> length (content g) \<Longrightarrow>
   content (file_write (file_seek g p) b) = take p (content g) @ b @ drop (p + length b) (content g)"
  by (simp add: file_write_def file_seek_def file_size_def)

lemma finalize_content:
  assumes "44 \<le> length (content f)"
  shows "content (finalizeWavHeader f) =
           take 4 (content f) @ le32_bytes (of_nat (length (content f)) - 8)
           @ take 32 (drop 8 (content f)) @ le32_bytes (of_nat (length (content f)) - 44)
           @ drop 44 (content f)"
proof -
  let ?c = "content f"
  let ?a = "le32_bytes (of_nat (length ?c) - 8)"
  let ?b = "le32_bytes (of_nat (length ?c) - 44)"
  let ?f2 = "file_write (file_seek f 4) ?a"
  have "4 \<le> length ?c" using assms by simp
  then have c2: "content ?f2 = take 4 ?c @ ?a @ drop 8 ?c"
    by (simp add: seek_write_content length_le32_bytes)
  have l2: "40 \<le> length (content ?f2)"
    using assms by (simp add: c2 length_le32_bytes)
  have t: "take 40 (take 4 ?c @ ?a @ drop 8 ?c) = take 4 ?c @ ?a @ take 32 (drop 8 ?c)"
    using assms by (simp add: length_le32_bytes)
  have d: "drop 44 (take 4 ?c @ ?a @ drop 8 ?c) = drop 44 ?c"
    using assms by (simp add: length_le32_bytes)
  have "finalizeWavHeader f = file_write (file_seek ?f2 40) ?b"
    by (simp add: finalizeWavHeader_def Let_def file_size_def)
  then have "content (finalizeWavHeader f) = take 40 (content ?f2) @ ?b @ drop 44 (content ?f2)"
    using seek_write_content [OF l2, of ?b] by (simp add: length_le32_bytes)
  then show ?thesis by (simp only: c2 t d append_assoc)
qed

lemma patched_layout:
  fixes c a b :: "'a list"
  assumes "44 \<le> length c" "length a = 4" "length b = 4"
  defines "r \<equiv> take 4 c @ a @ take 32 (drop 8 c) @ b @ drop 44 c"
  shows "length r = length c" "take 4 (drop 4 r) = a" "take 4 (drop 40 r) = b" "drop 44 r = drop 44 c"
proof -
  have l4: "length (take 4 c) = 4" using assms(1) by simp
  have l32: "length (take 32 (drop 8 c)) = 32" using assms(1) by simp
  show "length r = length c" unfolding r_def using assms by simp
  have "drop 4 r = a @ take 32 (drop 8 c) @ b @ drop 44 c"
    unfolding r_def using l4 by simp
  then show "take 4 (drop 4 r) = a" using assms(2) by simp
  have "r = (take 4 c @ a @ take 32 (drop 8 c)) @ b @ drop 44 c" unfolding r_def by simp
  moreover have "length (take 4 c @ a @ take 32 (drop 8 c)) = 40" using l4 l32 assms(2) by simp
  ultimately have d40: "drop 40 r = b @ drop 44 c" by (metis append_eq_conv_conj)
  then show "take 4 (drop 40 r) = b" using assms(3) by simp
  have "drop 44 r = drop 4 (drop 40 r)" by simp
  then show "drop 44 r = drop 44 c" unfolding d40 using assms(3) by simp
qed

lemma unat_size_minus:
  assumes "k \<le> m"
  shows "unat (of_nat m - of_nat k :: u32) = (m - k) mod 2 ^ 32"
proof -
  have e: "(of_nat m - of_nat k :: u32) = of_nat (m - k)"
    using assms by (simp only: of_nat_diff)
  show ?thesis unfolding e by (simp only: unat_of_nat) simp
qed

section \<open>Facts about recordAudio\<close>

lemma recordAudio_loop_count:
  "map_option snd (recordAudio_loop t reads f s) = samples_counted t (map length reads) s"
  by (induction reads arbitrary: f s) (simp_all add: SAMPLE_BITS_def)

lemma samples_of_read:
  assumes "length (buf :: byte list) \<le> 1024"
  shows "unat (of_nat (length buf) div (SAMPLE_BITS div 8) :: u32) = length buf div 2"
proof -
  have "unat (of_nat (length buf) :: u32) = length buf"
    using assms by (simp add: unat_of_nat)
  then show ?thesis by (simp add: SAMPLE_BITS_def unat_div)
qed

lemma unat_add_32: "unat a + unat b < 2 ^ 32 \<Longrightarrow> unat (a + b :: u32) = unat a + unat b"
  by (simp add: unat_word_ariths)

lemma step_no_wrap:
  assumes "length (buf :: byte list) \<le> 1024" and "s < t" and "unat (t::u32) + 512 \<le> 2 ^ 32"
  shows "unat (s + of_nat (length buf) div (SAMPLE_BITS div 8)) = unat s + length buf div 2"
proof -
  have "unat s < unat t" using assms(2) by (simp add: word_less_nat_alt)
  moreover have "length buf div 2 \<le> 512" using assms(1) by simp
  ultimately have "unat s + length buf div 2 < 2 ^ 32" using assms(3) by simp
  then have "unat s + unat (of_nat (length buf) div (SAMPLE_BITS div 8) :: u32) < 2 ^ 32"
    by (simp only: samples_of_read [OF assms(1)])
  then have "unat (s + of_nat (length buf) div (SAMPLE_BITS div 8))
      = unat s + unat (of_nat (length buf) div (SAMPLE_BITS div 8) :: u32)"
    by (rule unat_add_32)
  then show ?thesis by (simp only: samples_of_read [OF assms(1)])
qed

lemma loop_overshoot:
  assumes "list_all (\<lambda>buf. length buf \<le> 1024) reads"
    and "unat t + 512 \<le> 2 ^ 32"
    and "unat s < unat t + 512"
    and "recordAudio_loop t reads f s = Some (f', n)"
  shows "unat t \<le> unat n \<and> unat n < unat t + 512"
  using assms
proof (induction reads arbitrary: f s)
  case Nil
  then show ?case by (auto simp add: word_less_nat_alt split: if_splits)
next
  case (Cons buf reads)
  show ?case
  proof (cases "s < t")
    case True
    have len: "length buf \<le> 1024" using Cons.prems(1) by simp
    have u: "unat (s + of_nat (length buf) div (SAMPLE_BITS div 8)) = unat s + length buf div 2"
      using step_no_wrap [OF len True Cons.prems(2)] .
    have "unat s < unat t" using True by (simp add: word_less_nat_alt)
    moreover have "length buf div 2 \<le> 512" using len by simp
    ultimately have b: "unat (s + of_nat (length buf) div (SAMPLE_BITS div 8)) < unat t + 512"
      unfolding u by linarith
    have r: "recordAudio_loop t reads (file_write f buf)
               (s + of_nat (length buf) div (SAMPLE_BITS div 8)) = Some (f', n)"
      using Cons.prems(4) True by simp
    have l: "list_all (\<lambda>buf. length buf \<le> 1024) reads" using Cons.prems(1) by simp
    show ?thesis by (rule Cons.IH [OF l Cons.prems(2) b r])
  next
    case False
    then have "n = s" using Cons.prems(4) by simp
    then show ?thesis using False Cons.prems(3) by (simp add: word_less_nat_alt)
  qed
qed

lemma loop_returns:
  assumes "list_all (\<lambda>buf. length buf \<le> 1024) reads"
    and "unat t + 512 \<le> 2 ^ 32"
    and "unat t \<le> unat s + sum_list (map (\<lambda>buf. length buf div 2) reads)"
  shows "recordAudio_loop t reads f s \<noteq> None"
  using assms
proof (induction reads arbitrary: f s)
  case Nil
  then show ?case by (simp add: word_less_nat_alt)
next
  case (Cons buf reads)
  show ?case
  proof (cases "s < t")
    case True
    have len: "length buf \<le> 1024" using Cons.prems(1) by simp
    have u: "unat (s + of_nat (length buf) div (SAMPLE_BITS div 8)) = unat s + length buf div 2"
      using step_no_wrap [OF len True Cons.prems(2)] .
    have l: "list_all (\<lambda>buf. length buf \<le> 1024) reads" using Cons.prems(1) by simp
    have "unat t \<le> unat (s + of_nat (length buf) div (SAMPLE_BITS div 8))
            + sum_list (map (\<lambda>buf. length buf div 2) reads)"
      unfolding u using Cons.prems(3) by simp
    from Cons.IH [OF l Cons.prems(2) this] show ?thesis using True by simp
  next
    case False
    then show ?thesis by simp
  qed
qed

lemma loop_exact:
  assumes "list_all (\<lambda>buf. length buf = 1024) reads"
    and "unat t + 512 \<le> 2 ^ 32"
    and "512 dvd unat t" and "512 dvd unat s" and "unat s \<le> unat t"
    and "recordAudio_loop t reads f s = Some (f', n)"
  shows "n = t"
  using assms
proof (induction reads arbitrary: f s)
  case Nil
  then show ?case by (auto simp add: word_less_nat_alt word_unat_eq_iff split: if_splits)
next
  case (Cons buf reads)
  show ?case
  proof (cases "s < t")
    case True
    have len: "length buf = 1024" using Cons.prems(1) by simp
    then have len': "length buf \<le> 1024" by simp
    have u: "unat (s + of_nat (length buf) div (SAMPLE_BITS div 8)) = unat s + 512"
      using step_no_wrap [OF len' True Cons.prems(2)] len by simp
    have lt: "unat s < unat t" using True by (simp add: word_less_nat_alt)
    obtain a b where a: "unat t = 512 * a" and b: "unat s = 512 * b"
      using Cons.prems(3,4) by (auto simp add: dvd_def)
    have "b < a" using lt a b by simp
    then have "b + 1 \<le> a" by simp
    then have "512 * (b + 1) \<le> 512 * a" by (simp only: mult_le_mono2)
    then have le: "unat s + 512 \<le> unat t" using a b by simp
    have d: "512 dvd unat s + 512" using Cons.prems(4) by simp
    have r: "recordAudio_loop t reads (file_write f buf)
               (s + of_nat (length buf) div (SAMPLE_BITS div 8)) = Some (f', n)"
      using Cons.prems(6) True by simp
    have l: "list_all (\<lambda>buf. length buf = 1024) reads" using Cons.prems(1) by simp
    show ?thesis
      by (rule Cons.IH [OF l Cons.prems(2,3) _ _ r]) (simp_all only: u d le)
  next
    case False
    then have "n = s" using Cons.prems(6) by simp
    moreover have "unat t \<le> unat s" using False by (simp add: word_less_nat_alt)
    ultimately show ?thesis using Cons.prems(5) by (simp add: word_unat_eq_iff)
  qed
qed


lemma full_reads_counted: "samples_counted 16000 (replicate 32 1024) 0 = Some 16384"
  by code_simp

lemma full_reads_recorded:
  "map_option snd (recordAudio 1 (replicate 32 (replicate 1024 0)) created_file) = Some 16384"
  by (simp add: recordAudio_def recordAudio_loop_count SAMPLE_RATE_def full_reads_counted)

lemma loop_counts_received:
  assumes "list_all (\<lambda>buf. length buf \<le> 1024) reads"
    and "unat t + 512 \<le> 2 ^ 32"
    and "recordAudio_loop t reads f s = Some (f', n)"
  shows "\<exists>k\<le>length reads.
           f' = write_all f (take k reads)
         \<and> unat n = unat s + sum_list (map (\<lambda>buf. length buf div 2) (take k reads))
         \<and> (\<forall>j<k. unat s + sum_list (map (\<lambda>buf. length buf div 2) (take j reads)) < unat t)"
  using assms
proof (induction reads arbitrary: f s)
  case Nil
  then show ?case by (auto split: if_splits)
next
  case (Cons buf reads)
  show ?case
  proof (cases "s < t")
    case True
    let ?s' = "s + of_nat (length buf) div (SAMPLE_BITS div 8)"
    have len: "length buf \<le> 1024" using Cons.prems(1) by simp
    have u: "unat ?s' = unat s + length buf div 2"
      using step_no_wrap [OF len True Cons.prems(2)] .
    have lt: "unat s < unat t" using True by (simp add: word_less_nat_alt)
    have r: "recordAudio_loop t reads (file_write f buf) ?s' = Some (f', n)"
      using Cons.prems(3) True by simp
    have l: "list_all (\<lambda>buf. length buf \<le> 1024) reads" using Cons.prems(1) by simp
    from Cons.IH [OF l Cons.prems(2) r] obtain k where k: "k \<le> length reads"
      and fk: "f' = write_all (file_write f buf) (take k reads)"
      and nk: "unat n = unat ?s' + sum_list (map (\<lambda>buf. length buf div 2) (take k reads))"
      and jk: "\<forall>j<k. unat ?s' + sum_list (map (\<lambda>buf. length buf div 2) (take j reads)) < unat t"
      by blast
    have "\<forall>j<Suc k. unat s + sum_list (map (\<lambda>buf. length buf div 2) (take j (buf # reads))) < unat t"
    proof (intro allI impI)
      fix j assume j: "j < Suc k"
      show "unat s + sum_list (map (\<lambda>buf. length buf div 2) (take j (buf # reads))) < unat t"
      proof (cases j)
        case 0
        then show ?thesis using lt by simp
      next
        case (Suc j')
        then have "j' < k" using j by simp
        with jk have "unat ?s' + sum_list (map (\<lambda>buf. length buf div 2) (take j' reads)) < unat t"
          by blast
        then show ?thesis unfolding u using Suc by simp
      qed
    qed
    moreover have "Suc k \<le> length (buf # reads)" using k by simp
    moreover have "f' = write_all f (take (Suc k) (buf # reads))" using fk by simp
    moreover have "unat n = unat s + sum_list (map (\<lambda>buf. length buf div 2) (take (Suc k) (buf # reads)))"
      using nk unfolding u by simp
    ultimately show ?thesis by blast
  next
    case False
    then have "f' = f" "n = s" using Cons.prems(3) by simp_all
    then have "f' = write_all f (take 0 (buf # reads))
        \<and> unat n = unat s + sum_list (map (\<lambda>buf. length buf div 2) (take 0 (buf # reads)))
        \<and> (\<forall>j<0. unat s + sum_list (map (\<lambda>buf. length buf div 2) (take j (buf # reads))) < unat t)"
      by simp
    then show ?thesis by blast
  qed
qed


section \<open>Facts about playSong\<close>




















lemma SD_open_Some:
  "SD_open sd name = Some f \<Longrightarrow>
   stored sd name = Some (content f) \<and> opens sd name
   \<and> f = \<lparr>content = content f, position = 0, is_open = True\<rparr>"
  by (auto simp add: SD_open_def split: option.splits if_splits)

lemma SD_open_cursor: "SD_open sd name = Some f \<Longrightarrow> position f = 0 \<and> is_open f"
  by (auto simp add: SD_open_def split: option.splits if_splits)


section \<open>Facts about the bitmap decoder\<close>

lemma bit_byte_less: "bit (a::byte) n \<Longrightarrow> n < 8"
  using bit_imp_le_length [of a n] by simp

lemma low_byte_of_pair:
  "(ucast (ucast (ucast (a::byte) OR push_bit 8 (b::32 word) :: 32 word) :: 16 word) :: byte) = a"
  by (rule bit_eqI) (auto simp add: bit_simps)

lemma high_byte_of_pair:
  "(ucast (drop_bit 8 (ucast (ucast (a::byte) OR push_bit 8 (b::32 word) :: 32 word) :: 16 word)) :: byte)
     = ucast b"
  by (rule bit_eqI) (auto simp add: bit_simps dest: bit_byte_less)

lemma eof_pair: "(ucast (- 1 OR (x :: 32 word)) :: 16 word) = - 1"
  by (rule bit_eqI) (simp add: bit_simps)

lemma ucast_byte_eq_0: "(ucast (a::byte) :: 32 word) = 0 \<Longrightarrow> a = 0"
proof (rule bit_eqI)
  fix n
  assume z: "(ucast a :: 32 word) = 0"
  have "bit (ucast a :: 32 word) n = (n < 32 \<and> bit a n)" by (simp add: bit_simps)
  then have "\<not> (n < 32 \<and> bit a n)" using z by simp
  then show "bit a n = bit (0::byte) n" using bit_byte_less [of a n] by auto
qed

lemma push_byte_eq_0: "k \<le> 24 \<Longrightarrow> push_bit k (ucast (a::byte) :: 32 word) = 0 \<Longrightarrow> a = 0"
proof -
  assume k: "k \<le> 24" and z: "push_bit k (ucast a :: 32 word) = 0"
  have "drop_bit k (push_bit k (ucast a :: 32 word)) = ucast a"
  proof (rule bit_eqI)
    fix n
    show "bit (drop_bit k (push_bit k (ucast a :: 32 word))) n = bit (ucast a :: 32 word) n"
    proof (cases "bit a n")
      case True
      then have "n < 8" by (rule bit_byte_less)
      then have "k + n < 32" using k by simp
      then show ?thesis using True by (simp add: bit_simps)
    next
      case False
      then show ?thesis by (simp add: bit_simps)
    qed
  qed
  then have "(ucast a :: 32 word) = 0" using z by simp
  then show ?thesis by (rule ucast_byte_eq_0)
qed

lemma push_eof_neq_0: "k < 32 \<Longrightarrow> push_bit k (- 1 :: 32 word) \<noteq> 0"
proof
  assume k: "k < 32" and z: "push_bit k (- 1 :: 32 word) = 0"
  have "bit (push_bit k (- 1 :: 32 word)) k" using k by (simp add: bit_simps)
  then show False using z by simp
qed


lemma file_read1_file:
  "content (snd (file_read1 f)) = content f \<and> is_open (snd (file_read1 f)) = is_open f
   \<and> position (snd (file_read1 f))
       = (if position f < length (content f) then position f + 1 else position f)"
  by (simp add: file_read1_def)

lemma file_read1_value:
  "fst (file_read1 f)
     = (if position f < length (content f) then ucast (content f ! position f) else - 1)"
  by (simp add: file_read1_def)

lemma read16_fst:
  "fst (read16 f) = ucast (fst (file_read1 f) OR push_bit 8 (fst (file_read1 (snd (file_read1 f)))))"
  by (simp add: read16_def split: prod.splits)

lemma read16_snd: "snd (read16 f) = snd (file_read1 (snd (file_read1 f)))"
  by (simp add: read16_def split: prod.splits)

lemma read32_fst:
  "fst (read32 f) =
     fst (file_read1 f)
     OR push_bit 8 (fst (file_read1 (snd (file_read1 f))))
     OR push_bit 16 (fst (file_read1 (snd (file_read1 (snd (file_read1 f))))))
     OR push_bit 24 (fst (file_read1 (snd (file_read1 (snd (file_read1 (snd (file_read1 f))))))))"
  by (simp add: read32_def split: prod.splits)

lemma read32_snd:
  "snd (read32 f) = snd (file_read1 (snd (file_read1 (snd (file_read1 (snd (file_read1 f)))))))"
  by (simp add: read32_def split: prod.splits)

lemma read16_file:
  "content (snd (read16 f)) = content f \<and> is_open (snd (read16 f)) = is_open f
   \<and> (position f \<le> length (content f) \<longrightarrow>
        position (snd (read16 f)) = min (position f + 2) (length (content f)))"
  by (simp add: read16_snd file_read1_file)

lemma read32_file:
  "content (snd (read32 f)) = content f \<and> is_open (snd (read32 f)) = is_open f
   \<and> (position f \<le> length (content f) \<longrightarrow>
        position (snd (read32 f)) = min (position f + 4) (length (content f)))"
  by (simp add: read32_snd file_read1_file)


lemma read16_bytes:
  assumes v: "fst (read16 f) = v" and n1: "v \<noteq> - 1" and hi: "(ucast (drop_bit 8 v) :: byte) \<noteq> 0xFF"
  shows "position f + 2 \<le> length (content f) \<and> content f ! position f = ucast v
         \<and> content f ! (position f + 1) = ucast (drop_bit 8 v)"
proof (cases "position f < length (content f)")
  case False
  then have "fst (read16 f) = - 1"
    by (simp only: read16_fst file_read1_value if_False eof_pair)
  then show ?thesis using v n1 by simp
next
  case True
  let ?a = "content f ! position f"
  let ?g = "snd (file_read1 f)"
  have g: "content ?g = content f" "position ?g = position f + 1"
    using True by (simp_all add: file_read1_file)
  have a: "fst (file_read1 f) = ucast ?a" using True by (simp add: file_read1_value)
  show ?thesis
  proof (cases "position f + 1 < length (content f)")
    case False
    then have "fst (file_read1 ?g) = - 1" by (simp add: file_read1_value g)
    then have "v = ucast (ucast ?a OR push_bit 8 (- 1 :: 32 word))"
      using v by (simp only: read16_fst a)
    then have "(ucast (drop_bit 8 v) :: byte) = ucast (- 1 :: 32 word)"
      by (simp only: high_byte_of_pair)
    moreover have "(ucast (- 1 :: 32 word) :: byte) = - 1"
      by (rule bit_eqI) (simp add: bit_simps)
    moreover have "(- 1 :: byte) = 0xFF" by simp
    ultimately have "(ucast (drop_bit 8 v) :: byte) = 0xFF" by (simp only:)
    then show ?thesis using hi by simp
  next
    case in2: True
    let ?b = "content f ! (position f + 1)"
    have "fst (file_read1 ?g) = ucast ?b" using in2 by (simp add: file_read1_value g)
    then have e: "v = ucast (ucast ?a OR push_bit 8 (ucast ?b :: 32 word))"
      using v by (simp only: read16_fst a)
    have lo: "(ucast v :: byte) = ?a" unfolding e by (rule low_byte_of_pair)
    have "(ucast (drop_bit 8 v) :: byte) = ucast (ucast ?b :: 32 word)"
      unfolding e by (rule high_byte_of_pair)
    moreover have "(ucast (ucast ?b :: 32 word) :: byte) = ?b"
      by (rule bit_eqI) (auto simp add: bit_simps dest: bit_byte_less)
    ultimately have "(ucast (drop_bit 8 v) :: byte) = ?b" by (simp only:)
    then show ?thesis using in2 lo by simp
  qed
qed

lemma file_read1_zero:
  assumes "push_bit k (fst (file_read1 g)) = 0" and "k \<le> 24"
  shows "position g < length (content g) \<and> content g ! position g = 0"
proof (cases "position g < length (content g)")
  case True
  then have "push_bit k (ucast (content g ! position g) :: 32 word) = 0"
    using assms(1) by (simp add: file_read1_value)
  from push_byte_eq_0 [OF assms(2) this] True show ?thesis by simp
next
  case False
  then have "push_bit k (- 1 :: 32 word) = 0" using assms(1) by (simp add: file_read1_value)
  moreover have "k < 32" using assms(2) by simp
  ultimately show ?thesis using push_eof_neq_0 by blast
qed

lemma read32_zero:
  assumes "fst (read32 f) = 0"
  shows "position f + 4 \<le> length (content f)
       \<and> content f ! position f = 0 \<and> content f ! (position f + 1) = 0
       \<and> content f ! (position f + 2) = 0 \<and> content f ! (position f + 3) = 0"
proof -
  let ?g1 = "snd (file_read1 f)"
  let ?g2 = "snd (file_read1 ?g1)"
  let ?g3 = "snd (file_read1 ?g2)"
  from assms have z: "push_bit 0 (fst (file_read1 f)) = 0" "push_bit 8 (fst (file_read1 ?g1)) = 0"
    "push_bit 16 (fst (file_read1 ?g2)) = 0" "push_bit 24 (fst (file_read1 ?g3)) = 0"
    by (simp_all add: read32_fst or_eq_0_iff)
  from file_read1_zero [OF z(1)] have b0: "position f < length (content f)"
    "content f ! position f = 0" by simp_all
  then have g1: "content ?g1 = content f" "position ?g1 = position f + 1"
    by (simp_all add: file_read1_file)
  from file_read1_zero [OF z(2)] have b1: "position f + 1 < length (content f)"
    "content f ! (position f + 1) = 0" by (simp_all add: g1)
  then have g2: "content ?g2 = content f" "position ?g2 = position f + 2"
    by (simp_all add: file_read1_file g1)
  from file_read1_zero [OF z(3)] have b2: "position f + 2 < length (content f)"
    "content f ! (position f + 2) = 0" by (simp_all add: g2)
  then have g3: "content ?g3 = content f" "position ?g3 = position f + 3"
    by (simp_all add: file_read1_file g2)
  from file_read1_zero [OF z(4)] have b3: "position f + 3 < length (content f)"
    "content f ! (position f + 3) = 0" by (simp_all add: g3)
  show ?thesis using b0 b1 b2 b3 by simp
qed



lemma displayBMP_draws_only_if:
  assumes "SD_open sd filename = Some f0"
    and "snd (displayBMP sd filename stack display x y) \<noteq> display"
  shows "fst (read16 f0) = 0x4D42 \<and> fst (read16 (bpp_handle f0)) = 24
         \<and> fst (read32 (snd (read16 (bpp_handle f0)))) = 0"
  using assms
  by (simp add: displayBMP_def bpp_handle_def case_prod_beta split: if_splits)

lemma bpp_handle_file:
  assumes "position f0 = 0"
  shows "content (bpp_handle f0) = content f0
         \<and> position (bpp_handle f0) = min 28 (length (content f0))"
proof -
  let ?c = "content f0"
  let ?f1 = "snd (read16 f0)"
  let ?f2 = "snd (read32 ?f1)"
  let ?f3 = "snd (read32 ?f2)"
  let ?f4 = "snd (read32 ?f3)"
  let ?f5 = "snd (read32 ?f4)"
  let ?f6 = "snd (read32 ?f5)"
  let ?f7 = "snd (read32 ?f6)"
  let ?f8 = "snd (read16 ?f7)"
  have 1: "content ?f1 = ?c" "position ?f1 = min 2 (length ?c)"
    using assms read16_file [of f0] by simp_all
  have 2: "content ?f2 = ?c" "position ?f2 = min 6 (length ?c)"
    using 1 read32_file [of ?f1] by simp_all
  have 3: "content ?f3 = ?c" "position ?f3 = min 10 (length ?c)"
    using 2 read32_file [of ?f2] by simp_all
  have 4: "content ?f4 = ?c" "position ?f4 = min 14 (length ?c)"
    using 3 read32_file [of ?f3] by simp_all
  have 5: "content ?f5 = ?c" "position ?f5 = min 18 (length ?c)"
    using 4 read32_file [of ?f4] by simp_all
  have 6: "content ?f6 = ?c" "position ?f6 = min 22 (length ?c)"
    using 5 read32_file [of ?f5] by simp_all
  have 7: "content ?f7 = ?c" "position ?f7 = min 26 (length ?c)"
    using 6 read32_file [of ?f6] by simp_all
  have 8: "content ?f8 = ?c" "position ?f8 = min 28 (length ?c)"
    using 7 read16_file [of ?f7] by simp_all
  show ?thesis using 8 by (simp only: bpp_handle_def)
qed


lemma SD_open_image_card:
  "SD_open (image_card c) ''/images/image1.bmp'' = Some \<lparr>content = c, position = 0, is_open = True\<rparr>"
  by (simp add: SD_open_def image_card_def)


lemma bpp_read:
  assumes "fst (read16 f) = 24"
  shows "position f + 2 \<le> length (content f) \<and> content f ! position f = 24
         \<and> content f ! (position f + 1) = 0"
proof -
  have "(24 :: u16) \<noteq> - 1" by simp
  moreover have "(ucast (drop_bit 8 (24 :: u16)) :: byte) \<noteq> 0xFF" by simp
  ultimately show ?thesis using read16_bytes [OF assms] by simp
qed

lemma decode_pixel_cached:
  "buffidx st < 60 \<Longrightarrow>
   decode_pixel x y row col st =
     st\<lparr>buffidx := buffidx st + 3,
        screen := screen st @ [DrawPixel (x + col) (y + row) (sdbuffer st ! (buffidx st + 2))
                                 (sdbuffer st ! (buffidx st + 1)) (sdbuffer st ! buffidx st)]\<rparr>"
  by (simp add: decode_pixel_def Let_def)

lemma decode_pixel_refill:
  "60 \<le> buffidx st \<Longrightarrow>
   decode_pixel x y row col st =
     decode_pixel x y row col
       (st\<lparr>bmpFile := snd (file_read (bmpFile st) 60),
           sdbuffer := fst (file_read (bmpFile st) 60)
                       @ drop (length (fst (file_read (bmpFile st) 60))) (sdbuffer st),
           buffidx := 0\<rparr>)"
  by (simp add: decode_pixel_def Let_def case_prod_beta)

lemma cached_run:
  "buffidx st + 3 * length cols \<le> 60 \<Longrightarrow>
   fold (decode_pixel x y row) cols st =
     st\<lparr>buffidx := buffidx st + 3 * length cols,
        screen := screen st @ cached_ops x y row (sdbuffer st) (buffidx st) cols\<rparr>"
proof (induction cols arbitrary: st)
  case Nil
  then show ?case by simp
next
  case (Cons col cols)
  then have lt: "buffidx st < 60" by simp
  let ?st = "decode_pixel x y row col st"
  have s: "buffidx ?st = buffidx st + 3" "sdbuffer ?st = sdbuffer st"
    "screen ?st = screen st @ [DrawPixel (x + col) (y + row) (sdbuffer st ! (buffidx st + 2))
                                 (sdbuffer st ! (buffidx st + 1)) (sdbuffer st ! buffidx st)]"
    "bmpFile ?st = bmpFile st"
    by (simp_all add: decode_pixel_cached [OF lt])
  have "buffidx ?st + 3 * length cols \<le> 60" using Cons.prems by (simp add: s)
  from Cons.IH [OF this] show ?case
    by (simp add: s decode_pixel_cached [OF lt])
qed

lemma refilled_run:
  assumes "60 \<le> buffidx st" and "3 * length (col # cols) \<le> 60"
  shows "fold (decode_pixel x y row) (col # cols) st =
     st\<lparr>bmpFile := snd (file_read (bmpFile st) 60),
        sdbuffer := fst (file_read (bmpFile st) 60)
                    @ drop (length (fst (file_read (bmpFile st) 60))) (sdbuffer st),
        buffidx := 3 * length (col # cols),
        screen := screen st @ cached_ops x y row
                    (fst (file_read (bmpFile st) 60)
                       @ drop (length (fst (file_read (bmpFile st) 60))) (sdbuffer st))
                    0 (col # cols)\<rparr>"
proof -
  let ?st = "st\<lparr>bmpFile := snd (file_read (bmpFile st) 60),
           sdbuffer := fst (file_read (bmpFile st) 60)
                       @ drop (length (fst (file_read (bmpFile st) 60))) (sdbuffer st),
           buffidx := 0\<rparr>"
  have "fold (decode_pixel x y row) (col # cols) st = fold (decode_pixel x y row) (col # cols) ?st"
    using decode_pixel_refill [OF assms(1), of x y row col] by simp
  also have "\<dots> = ?st\<lparr>buffidx := buffidx ?st + 3 * length (col # cols),
        screen := screen ?st @ cached_ops x y row (sdbuffer ?st) (buffidx ?st) (col # cols)\<rparr>"
    by (rule cached_run) (use assms(2) in simp)
  finally show ?thesis by simp
qed


lemma upt_0_2: "[0..<2::nat] = [0, 1]" by code_simp
lemma upt_0_4: "[0..<4::nat] = [0, 1, 2, 3]" by code_simp
lemma upt_0_5: "[0..<5::nat] = [0, 1, 2, 3, 4]" by code_simp

lemma top_down_header:
  "displayBMP (image_card top_down_5x2) ''/images/image1.bmp'' stack display x y =
     (let st = decode_row x y 54 False 2 5 16 1
                 (decode_row x y 54 False 2 5 16 0
                    \<lparr>bmpFile = \<lparr>content = top_down_5x2, position = 34, is_open = True\<rparr>,
                       sdbuffer = stack, buffidx = 60,
                       screen = display @ [SetAddrWindow x y (x + 5 - 1) (y + 2 - 1)]\<rparr>)
      in (Some (file_close (bmpFile st)), screen st))"
proof -
  let ?f = "\<lambda>p. \<lparr>content = top_down_5x2, position = p, is_open = True\<rparr>"
  have r: "read16 (?f 0) = (0x4D42, ?f 2)" "read32 (?f 2) = (0, ?f 6)" "read32 (?f 6) = (0, ?f 10)"
    "read32 (?f 10) = (54, ?f 14)" "read32 (?f 14) = (40, ?f 18)" "read32 (?f 18) = (5, ?f 22)"
    "read32 (?f 22) = (- 2, ?f 26)" "read16 (?f 26) = (1, ?f 28)" "read16 (?f 28) = (24, ?f 30)"
    "read32 (?f 30) = (0, ?f 34)"
    by (simp_all add: read16_def read32_def file_read1_def top_down_5x2_def)
  have a: "abs_i32 (- 2) = 2" "rowSize 5 = 16" "\<not> 0 < sint (- 2 :: i32)" "nat (sint (2 :: i32)) = 2"
    by (simp_all add: abs_i32_def rowSize_def)
  show ?thesis
    by (simp add: displayBMP_def SD_open_image_card r a upt_0_2 Let_def del: One_nat_def)
qed

lemma top_down_data:
  "length top_down_5x2 = 86"
  "take 60 (drop 54 top_down_5x2)
     = [1, 2, 3, 4, 5, 6, 7, 8, 9, 10, 11, 12, 13, 14, 15, 0,
        101, 102, 103, 104, 105, 106, 107, 108, 109, 110, 111, 112, 113, 114, 115, 0]"
  by (simp_all add: top_down_5x2_def)

lemma top_down_row0:
  "decode_row 0 0 54 False 2 5 16 0
     \<lparr>bmpFile = \<lparr>content = top_down_5x2, position = 34, is_open = True\<rparr>,
        sdbuffer = stack, buffidx = 60, screen = scr\<rparr>
   = \<lparr>bmpFile = \<lparr>content = top_down_5x2, position = 86, is_open = True\<rparr>,
        sdbuffer = [1, 2, 3, 4, 5, 6, 7, 8, 9, 10, 11, 12, 13, 14, 15, 0,
                    101, 102, 103, 104, 105, 106, 107, 108, 109, 110, 111, 112, 113, 114, 115, 0]
                   @ drop 32 stack,
        buffidx = 15,
        screen = scr @ [DrawPixel 0 0 3 2 1, DrawPixel 1 0 6 5 4, DrawPixel 2 0 9 8 7,
                        DrawPixel 3 0 12 11 10, DrawPixel 4 0 15 14 13]\<rparr>"
proof -
  let ?st = "\<lparr>bmpFile = \<lparr>content = top_down_5x2, position = 54, is_open = True\<rparr>,
        sdbuffer = stack, buffidx = 60, screen = scr\<rparr>"
  have "decode_row 0 0 54 False 2 5 16 0
     \<lparr>bmpFile = \<lparr>content = top_down_5x2, position = 34, is_open = True\<rparr>,
        sdbuffer = stack, buffidx = 60, screen = scr\<rparr>
     = fold (decode_pixel 0 0 0) [0, 1, 2, 3, 4] ?st"
    by (simp add: decode_row_def Let_def file_seek_def file_size_def top_down_data upt_0_5)
  also have "\<dots> = ?st\<lparr>bmpFile := snd (file_read (bmpFile ?st) 60),
        sdbuffer := fst (file_read (bmpFile ?st) 60)
                    @ drop (length (fst (file_read (bmpFile ?st) 60))) (sdbuffer ?st),
        buffidx := 3 * length [0, 1, 2, 3, 4 :: i32],
        screen := screen ?st @ cached_ops 0 0 0
                    (fst (file_read (bmpFile ?st) 60)
                       @ drop (length (fst (file_read (bmpFile ?st) 60))) (sdbuffer ?st))
                    0 [0, 1, 2, 3, 4]\<rparr>"
    by (rule refilled_run) simp_all
  also have "\<dots> = \<lparr>bmpFile = \<lparr>content = top_down_5x2, position = 86, is_open = True\<rparr>,
        sdbuffer = [1, 2, 3, 4, 5, 6, 7, 8, 9, 10, 11, 12, 13, 14, 15, 0,
                    101, 102, 103, 104, 105, 106, 107, 108, 109, 110, 111, 112, 113, 114, 115, 0]
                   @ drop 32 stack,
        buffidx = 15,
        screen = scr @ [DrawPixel 0 0 3 2 1, DrawPixel 1 0 6 5 4, DrawPixel 2 0 9 8 7,
                        DrawPixel 3 0 12 11 10, DrawPixel 4 0 15 14 13]\<rparr>"
    by (simp add: file_read_def Let_def top_down_data) (simp add: eval_nat_numeral)
  finally show ?thesis .
qed


lemma row_from_cache:
  assumes "of_nat (position (bmpFile st)) \<noteq> bmpImageOffset + (if flip then bmpHeight - 1 - row else row) * rowSz"
    and "unat (bmpImageOffset + (if flip then bmpHeight - 1 - row else row) * rowSz)
           \<le> length (content (bmpFile st))"
    and "buffidx st + 3 * nat (sint bmpWidth) \<le> 60"
  shows "decode_row x y bmpImageOffset flip bmpHeight bmpWidth rowSz row st =
     st\<lparr>bmpFile := (bmpFile st)\<lparr>position :=
                 unat (bmpImageOffset + (if flip then bmpHeight - 1 - row else row) * rowSz)\<rparr>,
        buffidx := buffidx st + 3 * nat (sint bmpWidth),
        screen := screen st @ cached_ops x y row (sdbuffer st) (buffidx st)
                                (map of_nat [0..<nat (sint bmpWidth)])\<rparr>"
proof -
  let ?pos = "bmpImageOffset + (if flip then bmpHeight - 1 - row else row) * rowSz"
  let ?st = "st\<lparr>bmpFile := (bmpFile st)\<lparr>position := unat ?pos\<rparr>\<rparr>"
  have "decode_row x y bmpImageOffset flip bmpHeight bmpWidth rowSz row st
          = fold (decode_pixel x y row) (map of_nat [0..<nat (sint bmpWidth)]) ?st"
    using assms(1,2) by (simp add: decode_row_def Let_def file_seek_def file_size_def)
  also have "\<dots> = ?st\<lparr>buffidx := buffidx ?st + 3 * length (map of_nat [0..<nat (sint bmpWidth)] :: i32 list),
        screen := screen ?st @ cached_ops x y row (sdbuffer ?st) (buffidx ?st)
                                (map of_nat [0..<nat (sint bmpWidth)])\<rparr>"
    by (rule cached_run) (use assms(3) in simp)
  finally show ?thesis by simp
qed

lemma top_down_row1:
  "decode_row 0 0 54 False 2 5 16 1
     \<lparr>bmpFile = \<lparr>content = top_down_5x2, position = 86, is_open = True\<rparr>,
        sdbuffer = [1, 2, 3, 4, 5, 6, 7, 8, 9, 10, 11, 12, 13, 14, 15, 0,
                    101, 102, 103, 104, 105, 106, 107, 108, 109, 110, 111, 112, 113, 114, 115, 0]
                   @ rest,
        buffidx = 15, screen = scr\<rparr>
   = \<lparr>bmpFile = \<lparr>content = top_down_5x2, position = 70, is_open = True\<rparr>,
        sdbuffer = [1, 2, 3, 4, 5, 6, 7, 8, 9, 10, 11, 12, 13, 14, 15, 0,
                    101, 102, 103, 104, 105, 106, 107, 108, 109, 110, 111, 112, 113, 114, 115, 0]
                   @ rest,
        buffidx = 30,
        screen = scr @ [DrawPixel 0 1 102 101 0, DrawPixel 1 1 105 104 103,
                        DrawPixel 2 1 108 107 106, DrawPixel 3 1 111 110 109,
                        DrawPixel 4 1 114 113 112]\<rparr>"
  by (subst row_from_cache) (simp_all add: top_down_data upt_0_5)

lemma stale_cache_top_down:
  "displayBMP (image_card top_down_5x2) ''/images/image1.bmp'' stack [] 0 0
     = (Some \<lparr>content = top_down_5x2, position = 70, is_open = False\<rparr>,
        [SetAddrWindow 0 0 4 1,
         DrawPixel 0 0 3 2 1, DrawPixel 1 0 6 5 4, DrawPixel 2 0 9 8 7,
         DrawPixel 3 0 12 11 10, DrawPixel 4 0 15 14 13,
         DrawPixel 0 1 102 101 0, DrawPixel 1 1 105 104 103, DrawPixel 2 1 108 107 106,
         DrawPixel 3 1 111 110 109, DrawPixel 4 1 114 113 112])"
  by (simp only: top_down_header Let_def top_down_row0 top_down_row1) (simp add: file_close_def)


lemma bottom_up_header:
  "displayBMP (image_card bottom_up_4x2) ''/images/image1.bmp'' stack display x y =
     (let st = decode_row x y 54 True 2 4 12 1
                 (decode_row x y 54 True 2 4 12 0
                    \<lparr>bmpFile = \<lparr>content = bottom_up_4x2, position = 34, is_open = True\<rparr>,
                       sdbuffer = stack, buffidx = 60,
                       screen = display @ [SetAddrWindow x y (x + 4 - 1) (y + 2 - 1)]\<rparr>)
      in (Some (file_close (bmpFile st)), screen st))"
proof -
  let ?f = "\<lambda>p. \<lparr>content = bottom_up_4x2, position = p, is_open = True\<rparr>"
  have r: "read16 (?f 0) = (0x4D42, ?f 2)" "read32 (?f 2) = (0, ?f 6)" "read32 (?f 6) = (0, ?f 10)"
    "read32 (?f 10) = (54, ?f 14)" "read32 (?f 14) = (40, ?f 18)" "read32 (?f 18) = (4, ?f 22)"
    "read32 (?f 22) = (2, ?f 26)" "read16 (?f 26) = (1, ?f 28)" "read16 (?f 28) = (24, ?f 30)"
    "read32 (?f 30) = (0, ?f 34)"
    by (simp_all add: read16_def read32_def file_read1_def bottom_up_4x2_def)
  have a: "abs_i32 2 = 2" "rowSize 4 = 12" "0 < sint (2 :: i32)" "nat (sint (2 :: i32)) = 2"
    by (simp_all add: abs_i32_def rowSize_def)
  show ?thesis
    by (simp add: displayBMP_def SD_open_image_card r a upt_0_2 Let_def del: One_nat_def)
qed

lemma bottom_up_data:
  "length bottom_up_4x2 = 78"
  "take 60 (drop 66 bottom_up_4x2) = [101, 102, 103, 104, 105, 106, 107, 108, 109, 110, 111, 112]"
  by (simp_all add: bottom_up_4x2_def)

lemma bottom_up_row0:
  "decode_row 0 0 54 True 2 4 12 0
     \<lparr>bmpFile = \<lparr>content = bottom_up_4x2, position = 34, is_open = True\<rparr>,
        sdbuffer = stack, buffidx = 60, screen = scr\<rparr>
   = \<lparr>bmpFile = \<lparr>content = bottom_up_4x2, position = 78, is_open = True\<rparr>,
        sdbuffer = [101, 102, 103, 104, 105, 106, 107, 108, 109, 110, 111, 112] @ drop 12 stack,
        buffidx = 12,
        screen = scr @ [DrawPixel 0 0 103 102 101, DrawPixel 1 0 106 105 104,
                        DrawPixel 2 0 109 108 107, DrawPixel 3 0 112 111 110]\<rparr>"
proof -
  let ?st = "\<lparr>bmpFile = \<lparr>content = bottom_up_4x2, position = 66, is_open = True\<rparr>,
        sdbuffer = stack, buffidx = 60, screen = scr\<rparr>"
  have "decode_row 0 0 54 True 2 4 12 0
     \<lparr>bmpFile = \<lparr>content = bottom_up_4x2, position = 34, is_open = True\<rparr>,
        sdbuffer = stack, buffidx = 60, screen = scr\<rparr>
     = fold (decode_pixel 0 0 0) [0, 1, 2, 3] ?st"
    by (simp add: decode_row_def Let_def file_seek_def file_size_def bottom_up_data upt_0_4)
  also have "\<dots> = ?st\<lparr>bmpFile := snd (file_read (bmpFile ?st) 60),
        sdbuffer := fst (file_read (bmpFile ?st) 60)
                    @ drop (length (fst (file_read (bmpFile ?st) 60))) (sdbuffer ?st),
        buffidx := 3 * length [0, 1, 2, 3 :: i32],
        screen := screen ?st @ cached_ops 0 0 0
                    (fst (file_read (bmpFile ?st) 60)
                       @ drop (length (fst (file_read (bmpFile ?st) 60))) (sdbuffer ?st))
                    0 [0, 1, 2, 3]\<rparr>"
    by (rule refilled_run) simp_all
  also have "\<dots> = \<lparr>bmpFile = \<lparr>content = bottom_up_4x2, position = 78, is_open = True\<rparr>,
        sdbuffer = [101, 102, 103, 104, 105, 106, 107, 108, 109, 110, 111, 112] @ drop 12 stack,
        buffidx = 12,
        screen = scr @ [DrawPixel 0 0 103 102 101, DrawPixel 1 0 106 105 104,
                        DrawPixel 2 0 109 108 107, DrawPixel 3 0 112 111 110]\<rparr>"
    by (simp add: file_read_def Let_def bottom_up_data) (simp add: eval_nat_numeral)
  finally show ?thesis .
qed

lemma bottom_up_row1:
  "decode_row 0 0 54 True 2 4 12 1
     \<lparr>bmpFile = \<lparr>content = bottom_up_4x2, position = 78, is_open = True\<rparr>,
        sdbuffer = [101, 102, 103, 104, 105, 106, 107, 108, 109, 110, 111, 112]
                   @ replicate 48 0xAA,
        buffidx = 12, screen = scr\<rparr>
   = \<lparr>bmpFile = \<lparr>content = bottom_up_4x2, position = 54, is_open = True\<rparr>,
        sdbuffer = [101, 102, 103, 104, 105, 106, 107, 108, 109, 110, 111, 112]
                   @ replicate 48 0xAA,
        buffidx = 24,
        screen = scr @ [DrawPixel 0 1 0xAA 0xAA 0xAA, DrawPixel 1 1 0xAA 0xAA 0xAA,
                        DrawPixel 2 1 0xAA 0xAA 0xAA, DrawPixel 3 1 0xAA 0xAA 0xAA]\<rparr>"
  by (subst row_from_cache) (simp_all add: bottom_up_data upt_0_4 nth_append)

lemma drop_12_stack: "drop 12 (replicate 60 (0xAA :: byte)) = replicate 48 0xAA"
  by simp

lemma stale_cache_bottom_up:
  "displayBMP (image_card bottom_up_4x2) ''/images/image1.bmp'' (replicate 60 0xAA) [] 0 0
     = (Some \<lparr>content = bottom_up_4x2, position = 54, is_open = False\<rparr>,
        [SetAddrWindow 0 0 3 1,
         DrawPixel 0 0 103 102 101, DrawPixel 1 0 106 105 104, DrawPixel 2 0 109 108 107,
         DrawPixel 3 0 112 111 110,
         DrawPixel 0 1 0xAA 0xAA 0xAA, DrawPixel 1 1 0xAA 0xAA 0xAA,
         DrawPixel 2 1 0xAA 0xAA 0xAA, DrawPixel 3 1 0xAA 0xAA 0xAA])"
  by (simp only: bottom_up_header Let_def bottom_up_row0 drop_12_stack bottom_up_row1)
     (simp add: file_close_def)

section \<open>Facts about the scheduler\<close>

lemma small_song:
  "0 \<le> sint (c::32 word) \<Longrightarrow> sint c < 5 \<Longrightarrow> c = 0 \<or> c = 1 \<or> c = 2 \<or> c = 3 \<or> c = 4"
proof -
  assume a: "0 \<le> sint c" "sint c < 5"
  have "c = word_of_int (sint c)" by simp
  moreover have "sint c = 0 \<or> sint c = 1 \<or> sint c = 2 \<or> sint c = 3 \<or> sint c = 4"
    using a by arith
  ultimately show ?thesis by (metis word_of_int_0 word_of_int_1 word_of_int_numeral)
qed

lemma step_forward:
  assumes "0 \<le> sint c" "sint c < 5"
  shows "sint (c_rem (c + 1) totalSongs) = (sint c + 1) mod 5"
  using small_song [OF assms]
  by (auto simp add: c_rem_def totalSongs_def signed_modulo_int_def)

lemma step_backward:
  assumes "0 \<le> sint c" "sint c < 5"
  shows "sint (c_rem (c - 1 + totalSongs) totalSongs) = (sint c - 1) mod 5"
  using small_song [OF assms]
  by (auto simp add: c_rem_def totalSongs_def signed_modulo_int_def)

lemma image_step: "1 \<le> unat ((ci :: byte) mod totalImages + 1) \<and> unat (ci mod totalImages + 1) \<le> 4"
proof -
  have "unat (ci mod 4) = unat ci mod 4" by (simp add: unat_mod)
  then have "unat (ci mod 4) < 4" by simp
  then have "unat (ci mod 4 + 1) = unat (ci mod 4) + 1"
    by (simp add: unat_word_ariths)
  then show ?thesis using \<open>unat (ci mod 4) < 4\<close> by (simp add: totalImages_def)
qed


lemma clock_gate_cursors:
  "currentSong (fst (clock_gate m s)) = currentSong s
   \<and> currentImage (fst (clock_gate m s)) = currentImage s
   \<and> lastButtonPressTime (fst (clock_gate m s)) = lastButtonPressTime s"
  by (simp add: clock_gate_def)

lemma image_gate_song:
  "currentSong (fst (image_gate m s)) = currentSong s
   \<and> lastButtonPressTime (fst (image_gate m s)) = lastButtonPressTime s"
  by (simp add: image_gate_def Let_def)

lemma loop_button:
  "fst (loop inp s) = button_step inp (fst (image_gate (millis_top inp) (fst (clock_gate (millis_top inp) s))))"
  by (simp add: loop_def split: prod.splits)

lemma loop_song_before:
  "currentSong (fst (image_gate (millis_top inp) (fst (clock_gate (millis_top inp) s)))) = currentSong s"
  "lastButtonPressTime (fst (image_gate (millis_top inp) (fst (clock_gate (millis_top inp) s)))) = lastButtonPressTime s"
  by (simp_all add: image_gate_song clock_gate_cursors)

lemma button_step_image: "currentImage (button_step inp s) = currentImage s"
  by (simp add: button_step_def Let_def)

lemma image_gate_image:
  "1 \<le> unat (currentImage s) \<and> unat (currentImage s) \<le> 4 \<Longrightarrow>
   1 \<le> unat (currentImage (fst (image_gate m s))) \<and> unat (currentImage (fst (image_gate m s))) \<le> 4"
  using image_step [of "currentImage s"] by (simp add: image_gate_def Let_def)

lemma mod5_range: "0 \<le> (k::int) mod 5 \<and> k mod 5 < 5" by simp

lemma button_step_song:
  assumes "0 \<le> sint (currentSong s)" and "sint (currentSong s) < 5"
  shows "0 \<le> sint (currentSong (button_step inp s)) \<and> sint (currentSong (button_step inp s)) < 5"
  using step_forward [OF assms] step_backward [OF assms] assms
  by (simp add: button_step_def Let_def)

lemma loop_preserves:
  assumes "cursors_in_range s"
  shows "cursors_in_range (fst (loop inp s))"
proof -
  let ?s2 = "fst (image_gate (millis_top inp) (fst (clock_gate (millis_top inp) s)))"
  have song: "0 \<le> sint (currentSong ?s2)" "sint (currentSong ?s2) < 5"
    using assms by (simp_all add: loop_song_before cursors_in_range_def totalSongs_def)
  have img: "1 \<le> unat (currentImage ?s2) \<and> unat (currentImage ?s2) \<le> 4"
    using assms by (intro image_gate_image) (simp add: clock_gate_cursors cursors_in_range_def totalImages_def)
  show ?thesis
    using button_step_song [OF song, of inp] img
    by (simp add: loop_button cursors_in_range_def totalSongs_def totalImages_def button_step_image)
qed

lemma loop_calls:
  assumes "cursors_in_range s"
  shows "list_all call_in_range (snd (loop inp s))"
proof -
  let ?s1 = "fst (clock_gate (millis_top inp) s)"
  let ?s2 = "fst (image_gate (millis_top inp) ?s1)"
  have c: "snd (loop inp s) = snd (clock_gate (millis_top inp) s) @ snd (image_gate (millis_top inp) ?s1) @ [PlaySong (currentSong ?s2)]"
    by (simp add: loop_def split: prod.splits)
  have 1: "list_all call_in_range (snd (clock_gate (millis_top inp) s))"
    by (simp add: clock_gate_def)
  have 2: "list_all call_in_range (snd (image_gate (millis_top inp) ?s1))"
    using image_step [of "currentImage ?s1"] by (simp add: image_gate_def Let_def totalImages_def)
  have 3: "call_in_range (PlaySong (currentSong ?s2))"
    using assms by (simp add: loop_song_before cursors_in_range_def)
  show ?thesis using 1 2 3 by (simp add: c)
qed

lemma run_preserves:
  "cursors_in_range s \<Longrightarrow> cursors_in_range (fst (run inps s)) \<and> list_all call_in_range (snd (run inps s))"
proof (induction inps arbitrary: s)
  case Nil
  then show ?case by simp
next
  case (Cons inp inps)
  have "cursors_in_range (fst (loop inp s))" using Cons.prems by (rule loop_preserves)
  from Cons.IH [OF this] loop_calls [OF Cons.prems, of inp]
  show ?case by (auto split: prod.splits)
qed

lemma initial_in_range: "cursors_in_range initial"
  by (simp add: cursors_in_range_def initial_def totalSongs_def totalImages_def)

chapter \<open>The claims\<close>

section \<open>WAV finalization round trip (claim C1)\<close>

text \<open>
  C1: writeWavHeader on the file setup() has created, then writes totalling \<open>n\<close> payload
  bytes, then finalizeWavHeader. The file is \<open>44 + n\<close> bytes long; the four bytes at offset
  4, read as a little-endian 32-bit integer, are the length minus 8, and those at offset 40
  the length minus 44 (both as the 32-bit value the field can hold, and exactly so for every
  length below \<open>2 ^ 32\<close>, the largest a \<open>size_t\<close> of the target can report); the payload
  follows the header unchanged.
\<close>

theorem wav_finalization_round_trip:
  fixes chunks :: "byte list list" and sampleRate :: u32 and bitsPerSample channels :: u16
  defines "n \<equiv> length (concat chunks)"
  defines "f \<equiv> finalizeWavHeader
                  (write_all (writeWavHeader created_file sampleRate bitsPerSample channels) chunks)"
  shows "file_size f = 44 + n
     \<and> le32_value (take 4 (drop 4 (content f))) = (file_size f - 8) mod 2 ^ 32
     \<and> le32_value (take 4 (drop 40 (content f))) = (file_size f - 44) mod 2 ^ 32
     \<and> drop 44 (content f) = concat chunks
     \<and> (44 + n < 2 ^ 32 \<longrightarrow>
           le32_value (take 4 (drop 4 (content f))) = file_size f - 8
         \<and> le32_value (take 4 (drop 40 (content f))) = file_size f - 44)"
proof -
  let ?h = "writeWavHeader created_file sampleRate bitsPerSample channels"
  let ?g = "write_all ?h chunks"
  let ?c = "content ?g"
  have h: "length (content ?h) = 44" "at_end ?h"
    using writeWavHeader_created by simp_all
  have g: "?c = content ?h @ concat chunks"
    using write_all_at_end [OF h(2)] by simp
  have lg: "length ?c = 44 + n" by (simp add: g h(1) n_def)
  then have ge: "44 \<le> length ?c" by simp
  let ?a = "le32_bytes (of_nat (length ?c) - 8)"
  let ?b = "le32_bytes (of_nat (length ?c) - 44)"
  have cf: "content f = take 4 ?c @ ?a @ take 32 (drop 8 ?c) @ ?b @ drop 44 ?c"
    unfolding f_def by (rule finalize_content [OF ge])
  have lay: "length (content f) = length ?c" "take 4 (drop 4 (content f)) = ?a"
    "take 4 (drop 40 (content f)) = ?b" "drop 44 (content f) = drop 44 ?c"
    unfolding cf by (rule patched_layout [OF ge length_le32_bytes length_le32_bytes])+
  have size: "file_size f = 44 + n"
    using lay(1) lg by (simp only: file_size_def)
  have f4: "take 4 (drop 4 (content f)) = ?a" by (rule lay(2))
  have f40: "take 4 (drop 40 (content f)) = ?b" by (rule lay(3))
  have "drop 44 ?c = concat chunks" unfolding g using h(1) by simp
  then have payload: "drop 44 (content f) = concat chunks" using lay(4) by simp
  have v8: "unat (of_nat (length ?c) - 8 :: u32) = (length ?c - 8) mod 2 ^ 32"
    using unat_size_minus [of 8 "length ?c"] ge by simp
  have v44: "unat (of_nat (length ?c) - 44 :: u32) = (length ?c - 44) mod 2 ^ 32"
    using unat_size_minus [of 44 "length ?c"] ge by simp
  have sz: "file_size f = length ?c" using size lg by simp
  have r8: "le32_value (take 4 (drop 4 (content f))) = (file_size f - 8) mod 2 ^ 32"
    by (simp only: f4 le32_value_bytes v8 sz)
  have r44: "le32_value (take 4 (drop 40 (content f))) = (file_size f - 44) mod 2 ^ 32"
    by (simp only: f40 le32_value_bytes v44 sz)
  have exact: "44 + n < 2 ^ 32 \<longrightarrow>
           le32_value (take 4 (drop 4 (content f))) = file_size f - 8
         \<and> le32_value (take 4 (drop 40 (content f))) = file_size f - 44"
    unfolding r8 r44 size by simp
  show ?thesis using size r8 r44 payload exact by blast
qed

theorem wav_finalization_round_trip_witness:
  "file_size (finalizeWavHeader
      (write_all (writeWavHeader created_file 16000 16 1) [[1, 2, 3], [4, 5]])) = 49
   \<and> le32_value (take 4 (drop 4 (content (finalizeWavHeader
      (write_all (writeWavHeader created_file 16000 16 1) [[1, 2, 3], [4, 5]]))))) = 41
   \<and> le32_value (take 4 (drop 40 (content (finalizeWavHeader
      (write_all (writeWavHeader created_file 16000 16 1) [[1, 2, 3], [4, 5]]))))) = 5"
  using wav_finalization_round_trip
    [where chunks = "[[1, 2, 3], [4, 5]]" and sampleRate = 16000 and bitsPerSample = 16
       and channels = 1]
  by simp

section \<open>Capture duration (claim C2)\<close>

text \<open>
  C2, as stated: recordAudio stops with exactly \<open>SAMPLE_RATE * durationSec\<close> samples, for
  every duration and every sequence of reads. The loop tests the counter only between
  reads and every read asks for a whole buffer, so the count is rounded up to the read that
  crosses the target: for one second (16000 samples) and reads that each fill the buffer
  (512 samples), the loop stops after 32 reads with 16384 samples.
\<close>

theorem recordAudio_chunk_rounded_counterexample:
  "map_option snd (recordAudio 1 (replicate 32 (replicate 1024 0)) created_file) = Some 16384
   \<and> (16384 :: u32) \<noteq> SAMPLE_RATE * 1"
  using full_reads_recorded by (simp add: SAMPLE_RATE_def)

text \<open>
  C2, amended: for every duration whose target \<open>SAMPLE_RATE * durationSec\<close> (a \<open>uint32_t\<close>
  product) is at most \<open>2 ^ 32 - 512\<close> and every sequence of reads of at most 1024 bytes
  each (full or partial): when recordAudio returns, it has counted at least the target and
  fewer than the target plus 512 samples (less than one buffer more); the count is the
  number of samples received, the sum of \<open>bytesRead / 2\<close> over the reads it consumed, which
  are the shortest run of reads that delivers the target, and the file holds exactly the
  bytes of those reads, appended in order; it returns whenever the reads deliver the
  target; and the count is exactly the target when every read fills the buffer and the
  target is a multiple of 512 (as it is for the 60 seconds of setup()).
\<close>

theorem recordAudio_overshoot_below_one_chunk:
  assumes "list_all (\<lambda>buf. length buf \<le> 1024) reads"
    and "unat (SAMPLE_RATE * durationSec) + 512 \<le> 2 ^ 32"
  shows "(recordAudio durationSec reads wavFile = Some (f', n) \<longrightarrow>
            unat (SAMPLE_RATE * durationSec) \<le> unat n
          \<and> unat n < unat (SAMPLE_RATE * durationSec) + 512)
      \<and> (recordAudio durationSec reads wavFile = Some (f', n) \<longrightarrow>
            (\<exists>k\<le>length reads.
                f' = write_all wavFile (take k reads)
              \<and> unat n = sum_list (map (\<lambda>buf. length buf div 2) (take k reads))
              \<and> (\<forall>j<k. sum_list (map (\<lambda>buf. length buf div 2) (take j reads))
                          < unat (SAMPLE_RATE * durationSec))))
      \<and> (unat (SAMPLE_RATE * durationSec) \<le> sum_list (map (\<lambda>buf. length buf div 2) reads)
            \<longrightarrow> recordAudio durationSec reads wavFile \<noteq> None)
      \<and> (list_all (\<lambda>buf. length buf = 1024) reads \<and> 512 dvd unat (SAMPLE_RATE * durationSec)
          \<and> recordAudio durationSec reads wavFile = Some (f', n)
            \<longrightarrow> n = SAMPLE_RATE * durationSec)"
proof -
  let ?t = "SAMPLE_RATE * durationSec"
  have a: "recordAudio durationSec reads wavFile = Some (f', n) \<longrightarrow>
            unat ?t \<le> unat n \<and> unat n < unat ?t + 512"
    unfolding recordAudio_def
    using loop_overshoot [OF assms(1,2), of 0 wavFile f' n] by simp
  have d: "recordAudio durationSec reads wavFile = Some (f', n) \<longrightarrow>
            (\<exists>k\<le>length reads.
                f' = write_all wavFile (take k reads)
              \<and> unat n = sum_list (map (\<lambda>buf. length buf div 2) (take k reads))
              \<and> (\<forall>j<k. sum_list (map (\<lambda>buf. length buf div 2) (take j reads)) < unat ?t))"
    unfolding recordAudio_def
    using loop_counts_received [OF assms(1,2), where s = 0 and f = wavFile and f' = f' and n = n]
    by simp
  have b: "unat ?t \<le> sum_list (map (\<lambda>buf. length buf div 2) reads)
            \<longrightarrow> recordAudio durationSec reads wavFile \<noteq> None"
    unfolding recordAudio_def
    using loop_returns [OF assms(1,2), of 0 wavFile] by simp
  have c: "list_all (\<lambda>buf. length buf = 1024) reads \<and> 512 dvd unat ?t
          \<and> recordAudio durationSec reads wavFile = Some (f', n) \<longrightarrow> n = ?t"
    unfolding recordAudio_def
    using loop_exact [OF _ assms(2), of reads 0 wavFile f' n] by simp
  show ?thesis using a b c d by blast
qed

theorem recordAudio_overshoot_below_one_chunk_witness:
  "map_option snd (recordAudio 1 (replicate 32 (replicate 1024 0)) created_file) = Some 16384
   \<and> unat (SAMPLE_RATE * 1) \<le> unat (16384 :: u32)
   \<and> unat (16384 :: u32) < unat (SAMPLE_RATE * 1) + 512
   \<and> (\<exists>k\<le>32. unat (16384 :: u32)
          = sum_list (map (\<lambda>buf. length buf div 2) (take k (replicate 32 (replicate 1024 (0 :: byte))))))"
proof -
  let ?reads = "replicate 32 (replicate 1024 (0 :: byte))"
  have r: "map_option snd (recordAudio 1 ?reads created_file) = Some 16384"
    by (rule full_reads_recorded)
  then obtain f' where f': "recordAudio 1 ?reads created_file = Some (f', 16384)"
    by auto
  have h1: "list_all (\<lambda>buf. length buf \<le> 1024) ?reads"
    by (simp add: list_all_length)
  have h2: "unat (SAMPLE_RATE * 1) + 512 \<le> 2 ^ 32"
    by (simp add: SAMPLE_RATE_def)
  note t = recordAudio_overshoot_below_one_chunk [OF h1 h2, of created_file f' 16384]
  from t f' have "unat (SAMPLE_RATE * 1) \<le> unat (16384 :: u32)
     \<and> unat (16384 :: u32) < unat (SAMPLE_RATE * 1) + 512"
    by blast
  moreover from t f' have "\<exists>k\<le>length ?reads. unat (16384 :: u32)
          = sum_list (map (\<lambda>buf. length buf div 2) (take k ?reads))"
    by blast
  then have "\<exists>k\<le>32. unat (16384 :: u32)
          = sum_list (map (\<lambda>buf. length buf div 2) (take k ?reads))"
    by simp
  ultimately show ?thesis using r by blast
qed

section \<open>Bitmap magic rejection (claim C3)\<close>



section \<open>Row order of the decoder (claim C4)\<close>

text \<open>
  C4 says destination row \<open>r\<close> is drawn from source row \<open>H - 1 - r\<close> (bottom-up) or \<open>r\<close>
  (top-down). The decoder computes that row's position and seeks to it (lemma
  \<open>row_from_cache\<close>), but the seek does not invalidate the 60-byte cache, so the pixels of
  the row are taken from whatever the cache still holds. Evaluated on two files:
  the 5 by 2 top-down bitmap, for every content of the uninitialised cache, draws
  destination row 1 from the cache one byte early (the padding byte of row 0 first),
  not from source row 1, whose bytes are 101 to 115; the 4 by 2 bottom-up bitmap draws destination row 1 from
  the uninitialised part of the cache, not from source row 0, whose bytes are 1 to 12.
\<close>

theorem displayBMP_rows_from_stale_cache:
  "snd (displayBMP (image_card top_down_5x2) ''/images/image1.bmp'' stack [] 0 0)
     = [SetAddrWindow 0 0 4 1,
        DrawPixel 0 0 3 2 1, DrawPixel 1 0 6 5 4, DrawPixel 2 0 9 8 7,
        DrawPixel 3 0 12 11 10, DrawPixel 4 0 15 14 13,
        DrawPixel 0 1 102 101 0, DrawPixel 1 1 105 104 103, DrawPixel 2 1 108 107 106,
        DrawPixel 3 1 111 110 109, DrawPixel 4 1 114 113 112]
   \<and> take 15 (drop (54 + 1 * 16) top_down_5x2)
     = [101, 102, 103, 104, 105, 106, 107, 108, 109, 110, 111, 112, 113, 114, 115]
   \<and> snd (displayBMP (image_card bottom_up_4x2) ''/images/image1.bmp'' (replicate 60 0xAA) [] 0 0)
     = [SetAddrWindow 0 0 3 1,
        DrawPixel 0 0 103 102 101, DrawPixel 1 0 106 105 104, DrawPixel 2 0 109 108 107,
        DrawPixel 3 0 112 111 110,
        DrawPixel 0 1 0xAA 0xAA 0xAA, DrawPixel 1 1 0xAA 0xAA 0xAA,
        DrawPixel 2 1 0xAA 0xAA 0xAA, DrawPixel 3 1 0xAA 0xAA 0xAA]
   \<and> take 12 (drop (54 + 0 * 12) bottom_up_4x2) = [1, 2, 3, 4, 5, 6, 7, 8, 9, 10, 11, 12]"
proof -
  have "take 15 (drop (54 + 1 * 16) top_down_5x2)
     = [101, 102, 103, 104, 105, 106, 107, 108, 109, 110, 111, 112, 113, 114, 115]"
    by (simp add: top_down_5x2_def)
  moreover have "take 12 (drop (54 + 0 * 12) bottom_up_4x2)
     = [1, 2, 3, 4, 5, 6, 7, 8, 9, 10, 11, 12]"
    by (simp add: bottom_up_4x2_def)
  ultimately show ?thesis
    by (simp only: stale_cache_top_down stale_cache_bottom_up snd_conv simp_thms)
qed

section \<open>Playback chunk trimming and transmission (claim C5)\<close>





section \<open>Row stride (claim C6)\<close>

text \<open>
  C6, as stated, for every non-negative width: the stride is the smallest multiple of 4 that
  is at least \<open>3 * w\<close>. The width is an \<open>int32_t\<close> and the stride a \<open>uint32_t\<close>, so the
  statement fails where \<open>3 * w + 3\<close> no longer fits 32 bits: at the non-negative width
  \<open>0x55555555\<close> the sum wraps to 2 and the stride computed is 0, which is less than
  \<open>3 * w\<close>.
\<close>

theorem rowSize_wraps_counterexample:
  "0 \<le> sint (0x55555555 :: i32) \<and> rowSize 0x55555555 = 0
     \<and> \<not> 3 * unat (0x55555555 :: i32) \<le> unat (rowSize 0x55555555)"
  by (simp add: rowSize_def)

text \<open>
  C6, amended: for every width \<open>w\<close> with \<open>0 \<le> w\<close> and \<open>3 * w + 3 < 2 ^ 32\<close> (every width up
  to 1431655764) the stride is a multiple of 4, is at least \<open>3 * w\<close>, is no larger than any
  other such multiple, and equals \<open>(3 * w + 3) div 4 * 4\<close>; width 5 gives 16 and width 4
  gives 12.
\<close>

theorem rowSize_least_multiple_of_4:
  assumes "3 * unat w + 3 < 2 ^ 32"
  shows "0 \<le> sint w
    \<and> 4 dvd unat (rowSize w)
    \<and> 3 * unat w \<le> unat (rowSize w)
    \<and> (\<forall>m. 4 dvd m \<and> 3 * unat w \<le> m \<longrightarrow> unat (rowSize w) \<le> m)
    \<and> unat (rowSize w) = (3 * unat w + 3) div 4 * 4
    \<and> rowSize 5 = 16 \<and> rowSize 4 = 12"
proof -
  have r: "unat (rowSize w) = (3 * unat w + 3) div 4 * 4"
    using assms by (rule rowSize_unat)
  have "unat w < 2 ^ 31" using assms by simp
  then have "int (unat w) < int (2 ^ 31)" by (simp only: of_nat_less_iff)
  then have "uint w < 2 ^ 31" by simp
  then have nonneg: "0 \<le> sint w"
    by (simp only: sint_eq_uint_32) simp
  have least: "\<forall>m. 4 dvd m \<and> 3 * unat w \<le> m \<longrightarrow> unat (rowSize w) \<le> m"
    unfolding r by presburger
  have "4 dvd unat (rowSize w)" unfolding r by simp
  moreover have "3 * unat w \<le> unat (rowSize w)" unfolding r by presburger
  moreover have "rowSize 5 = 16" "rowSize 4 = 12" by (simp_all add: rowSize_def)
  ultimately show ?thesis using r nonneg least by blast
qed

theorem rowSize_least_multiple_of_4_witness:
  "3 * unat (5 :: i32) + 3 < 2 ^ 32 \<and> unat (rowSize 5) = 16 \<and> unat (rowSize 5) \<le> 16"
proof -
  have h: "3 * unat (5 :: i32) + 3 < 2 ^ 32" by simp
  have "rowSize 5 = 16" using rowSize_least_multiple_of_4 [OF h] by blast
  moreover have "\<forall>m. 4 dvd m \<and> 3 * unat (5 :: i32) \<le> m \<longrightarrow> unat (rowSize 5) \<le> m"
    using rowSize_least_multiple_of_4 [OF h] by blast
  then have "unat (rowSize 5) \<le> 16" by simp
  ultimately show ?thesis using h by simp
qed

section \<open>Playback failure and termination (claim C7)\<close>




section \<open>Unsupported-format rejection (claim C8)\<close>

text \<open>
  C8: for every stored file whose bits-per-pixel field is not 24 or whose compression field
  is not 0 (a file too short to hold the field included), displayBMP emits nothing to the
  render sink: neither an address window nor a pixel, so the sink is as it was.
\<close>

theorem displayBMP_unsupported_format_draws_nothing:
  assumes "stored sd filename = Some c" and "\<not> bpp_is_24 c \<or> \<not> uncompressed c"
  shows "snd (displayBMP sd filename stack display x y) = display"
proof (cases "SD_open sd filename")
  case None
  then show ?thesis by (simp add: displayBMP_def)
next
  case (Some f0)
  from SD_open_Some [OF Some] assms(1) have c: "content f0 = c"
    and f0: "f0 = \<lparr>content = content f0, position = 0, is_open = True\<rparr>" by simp_all
  from SD_open_cursor [OF Some] have p: "position f0 = 0" by simp
  show ?thesis
  proof (rule ccontr)
    assume "snd (displayBMP sd filename stack display x y) \<noteq> display"
    from displayBMP_draws_only_if [OF Some this]
    have b: "fst (read16 (bpp_handle f0)) = 24"
      and z: "fst (read32 (snd (read16 (bpp_handle f0)))) = 0" by simp_all
    from bpp_handle_file [OF p] have h: "content (bpp_handle f0) = c"
      "position (bpp_handle f0) = min 28 (length c)" by (simp_all add: c)
    from bpp_read [OF b] have b': "min 28 (length c) + 2 \<le> length c"
      "c ! min 28 (length c) = 24" "c ! (min 28 (length c) + 1) = 0"
      by (simp_all add: h)
    from b'(1) have len: "30 \<le> length c" by (simp add: min_def split: if_splits)
    then have m: "min 28 (length c) = 28" by simp
    have bpp: "bpp_is_24 c" using b' len unfolding m by (simp add: bpp_is_24_def)
    let ?f9 = "snd (read16 (bpp_handle f0))"
    have f9: "content ?f9 = c" "position ?f9 = 30"
      using read16_file [of "bpp_handle f0"] h len by (simp_all add: m)
    from read32_zero [OF z] have "uncompressed c"
      by (simp add: f9 uncompressed_def)
    with bpp assms(2) show False by simp
  qed
qed

theorem displayBMP_unsupported_format_draws_nothing_witness:
  "\<not> bpp_is_24 bmp_16bpp
   \<and> snd (displayBMP (image_card bmp_16bpp) ''/images/image1.bmp'' (replicate 60 0)
            [DrawPixel 0 0 1 2 3] 0 0) = [DrawPixel 0 0 1 2 3]
   \<and> bpp_is_24 bmp_compressed \<and> \<not> uncompressed bmp_compressed
   \<and> snd (displayBMP (image_card bmp_compressed) ''/images/image1.bmp'' (replicate 60 0)
            [DrawPixel 0 0 1 2 3] 0 0) = [DrawPixel 0 0 1 2 3]"
proof -
  have s: "stored (image_card bmp_16bpp) ''/images/image1.bmp'' = Some bmp_16bpp"
    by (simp add: image_card_def)
  have h: "\<not> bpp_is_24 bmp_16bpp" by (simp add: bpp_is_24_def bmp_16bpp_def)
  then have a: "\<not> bpp_is_24 bmp_16bpp \<or> \<not> uncompressed bmp_16bpp" by simp
  have s': "stored (image_card bmp_compressed) ''/images/image1.bmp'' = Some bmp_compressed"
    by (simp add: image_card_def)
  have h': "bpp_is_24 bmp_compressed" "\<not> uncompressed bmp_compressed"
    by (simp_all add: bpp_is_24_def uncompressed_def bmp_compressed_def)
  then have a': "\<not> bpp_is_24 bmp_compressed \<or> \<not> uncompressed bmp_compressed" by simp
  from displayBMP_unsupported_format_draws_nothing [OF s a]
    displayBMP_unsupported_format_draws_nothing [OF s' a'] h h'
  show ?thesis by simp
qed

section \<open>Playlist cursor stepping (claim C9)\<close>

text \<open>
  C9: in one iteration of loop(), from a state whose song index is within the playlist: if
  the button pin reads LOW and the time since the last accepted press (the difference of
  the two \<open>unsigned long\<close> readings) exceeds \<open>DEBOUNCE_DELAY\<close>, the cursor steps back by one
  modulo 5 and the accepted-press time becomes the time just read; if the pin reads HIGH
  the cursor steps forward by one modulo 5, on every such pass. (A press within the
  debounce window leaves both unchanged.)
\<close>

theorem loop_steps_playlist_cursor:
  assumes "0 \<le> sint (currentSong s)" and "sint (currentSong s) < 5"
  shows "(button_low inp \<and> DEBOUNCE_DELAY < millis_button inp - lastButtonPressTime s \<longrightarrow>
            sint (currentSong (fst (loop inp s))) = (sint (currentSong s) - 1) mod 5
            \<and> lastButtonPressTime (fst (loop inp s)) = millis_button inp)
       \<and> (\<not> button_low inp \<longrightarrow>
            sint (currentSong (fst (loop inp s))) = (sint (currentSong s) + 1) mod 5
            \<and> lastButtonPressTime (fst (loop inp s)) = lastButtonPressTime s)
       \<and> (button_low inp \<and> \<not> DEBOUNCE_DELAY < millis_button inp - lastButtonPressTime s \<longrightarrow>
            currentSong (fst (loop inp s)) = currentSong s
            \<and> lastButtonPressTime (fst (loop inp s)) = lastButtonPressTime s)"
  using step_forward [OF assms] step_backward [OF assms]
  by (simp add: loop_button button_step_def Let_def loop_song_before)

theorem loop_steps_playlist_cursor_witness:
  "currentSong (fst (loop \<lparr>millis_top = 10, button_low = True, millis_button = 100\<rparr> initial)) = 4
   \<and> lastButtonPressTime
        (fst (loop \<lparr>millis_top = 10, button_low = True, millis_button = 100\<rparr> initial)) = 100
   \<and> sint (currentSong
        (fst (loop \<lparr>millis_top = 10, button_low = False, millis_button = 100\<rparr> initial))) = 1"
proof -
  have a: "0 \<le> sint (currentSong initial)" and b: "sint (currentSong initial) < 5"
    by (simp_all add: initial_def)
  have c: "DEBOUNCE_DELAY < 100 - lastButtonPressTime initial"
    by (simp add: DEBOUNCE_DELAY_def initial_def)
  have "sint (currentSong
          (fst (loop \<lparr>millis_top = 10, button_low = True, millis_button = 100\<rparr> initial))) = 4"
    using loop_steps_playlist_cursor
      [OF a b, of "\<lparr>millis_top = 10, button_low = True, millis_button = 100\<rparr>"] c
    by (simp add: initial_def)
  then have "word_of_int (sint (currentSong
          (fst (loop \<lparr>millis_top = 10, button_low = True, millis_button = 100\<rparr> initial))))
          = (word_of_int 4 :: i32)"
    by (simp only:)
  then have "currentSong
          (fst (loop \<lparr>millis_top = 10, button_low = True, millis_button = 100\<rparr> initial)) = 4"
    by simp
  moreover have "lastButtonPressTime
        (fst (loop \<lparr>millis_top = 10, button_low = True, millis_button = 100\<rparr> initial)) = 100"
    using loop_steps_playlist_cursor
      [OF a b, of "\<lparr>millis_top = 10, button_low = True, millis_button = 100\<rparr>"] c
    by simp
  moreover have "sint (currentSong
        (fst (loop \<lparr>millis_top = 10, button_low = False, millis_button = 100\<rparr> initial))) = 1"
    using loop_steps_playlist_cursor
      [OF a b, of "\<lparr>millis_top = 10, button_low = False, millis_button = 100\<rparr>"]
    by (simp add: initial_def)
  ultimately show ?thesis by simp
qed

section \<open>Cursor range invariant (claim C10)\<close>

text \<open>
  C10: the initial state (\<open>currentSong = 0\<close>, \<open>currentImage = 1\<close>) has
  \<open>0 \<le> currentSong < totalSongs\<close> and \<open>1 \<le> currentImage \<le> totalImages\<close>; every
  iteration of loop(), whatever the clock and the button read, preserves both; so after any
  number of iterations both hold, and every playSong and displayBMPOnTFT2 call the loop
  has made was given an index within its list.
\<close>

theorem cursors_stay_in_range:
  "cursors_in_range initial
   \<and> (cursors_in_range s \<longrightarrow> cursors_in_range (fst (loop inp s)) \<and> list_all call_in_range (snd (loop inp s)))
   \<and> cursors_in_range (fst (run inps initial))
   \<and> list_all call_in_range (snd (run inps initial))"
  using initial_in_range loop_preserves loop_calls run_preserves [OF initial_in_range] by blast

theorem cursors_stay_in_range_witness:
  "cursors_in_range initial
   \<and> cursors_in_range
        (fst (loop \<lparr>millis_top = 5000, button_low = True, millis_button = 5001\<rparr> initial))
   \<and> list_all call_in_range
        (snd (loop \<lparr>millis_top = 5000, button_low = True, millis_button = 5001\<rparr> initial))
   \<and> snd (loop \<lparr>millis_top = 5000, button_low = True, millis_button = 5001\<rparr> initial)
       = [AdjustTime, DisplayTime, DisplayBMPOnTFT2 2, PlaySong 0]"
proof -
  have "snd (loop \<lparr>millis_top = 5000, button_low = True, millis_button = 5001\<rparr> initial)
       = [AdjustTime, DisplayTime, DisplayBMPOnTFT2 2, PlaySong 0]"
    by (simp add: loop_def clock_gate_def image_gate_def initial_def interval_def
          imageInterval_def totalImages_def Let_def)
  then show ?thesis
    using cursors_stay_in_range
      [of initial "\<lparr>millis_top = 5000, button_low = True, millis_button = 5001\<rparr>" "[]"]
    by simp
qed


end
